theory Spec2Isabelle
  imports Main
begin

section \<open>Data model\<close>

text \<open>
  The quote widget of \<^verbatim>\<open>dom-manipulation/script.js\<close> keeps one global array
  \<^verbatim>\<open>quotes\<close>. Values that enter the program from outside (an imported file, the
  content of \<^verbatim>\<open>localStorage\<close>) are JSON values. A JSON number is modelled as an
  integer; an object is the list of its properties, in which a property name occurs at
  most once.
\<close>

datatype json =
    JNull
  | JBool bool
  | JNum int
  | JStr string
  | JArr "json list"
  | JObj "(string \<times> json) list"

text \<open>
  A quote object as \<^verbatim>\<open>addQuote\<close>, the import normaliser and
  \<^verbatim>\<open>fetchServerQuotes\<close> build it:
  \<^verbatim>\<open>{ id, text, category, source, version, lastUpdated }\<close>.
  The fields \<^verbatim>\<open>id\<close> and \<^verbatim>\<open>text\<close> carry the suffix \<open>_q\<close> here.

  The merge loops compare ids with \<^verbatim>\<open>Set.has\<close>, \<^verbatim>\<open>Map.has\<close> and
  \<^verbatim>\<open>===\<close> only, so they are written for any type \<open>'i\<close> of ids, HOL's equality
  standing for the JavaScript comparison. Where the id is a JSON value (in the normaliser
  and the operations of the page) that comparison is equality of values on
  \<^verbatim>\<open>null\<close>, booleans, numbers and strings; an id that is itself an array or an
  object JavaScript compares by reference, so that two such ids with the same value can
  be different ids for the program.
\<close>

record 'i quote =
  id_q :: 'i
  text_q :: string
  category :: string
  source :: json
  version :: int
  lastUpdated :: int

section \<open>Import: the merge loop of \<^verbatim>\<open>importFromJsonFile\<close>\<close>

text \<open>
  \<^verbatim>\<open>
  const seenId = new Set(quotes.map(q => q.id));
  let added = 0, skipped = 0;
  for (const q of normalized) {
    if (seenId.has(q.id) || quotes.some(x => x.text === q.text && x.category === q.category)) {
      skipped++; continue;
    }
    quotes.push(q);
    seenId.add(q.id);
    added++;
  }
  \<close>
  The loop variables are the fields of \<open>import_state\<close>; \<open>import_step\<close> is one
  iteration of the body and \<open>import_loop\<close> the whole loop.
\<close>

record 'i import_state =
  i_quotes :: "'i quote list"
  i_seenId :: "'i set"
  i_added :: nat
  i_skipped :: nat

definition same_content :: "'i quote \<Rightarrow> 'i quote \<Rightarrow> bool" where
  "same_content x q \<longleftrightarrow> text_q x = text_q q \<and> category x = category q"

definition import_step :: "'i import_state \<Rightarrow> 'i quote \<Rightarrow> 'i import_state" where
  "import_step st q =
     (if id_q q \<in> i_seenId st \<or> list_ex (\<lambda>x. same_content x q) (i_quotes st)
      then st\<lparr>i_skipped := i_skipped st + 1\<rparr>
      else st\<lparr>i_quotes := i_quotes st @ [q],
              i_seenId := insert (id_q q) (i_seenId st),
              i_added := i_added st + 1\<rparr>)"

definition import_init :: "'i quote list \<Rightarrow> 'i import_state" where
  "import_init qs = \<lparr>i_quotes = qs, i_seenId = set (map id_q qs), i_added = 0, i_skipped = 0\<rparr>"

definition import_loop :: "'i quote list \<Rightarrow> 'i quote list \<Rightarrow> 'i import_state" where
  "import_loop qs normalized = foldl import_step (import_init qs) normalized"

text \<open>
  The spec's \<open>importMerge(existing, incoming) -> (merged, addedCount, skippedCount)\<close>
  is this loop read as a function of the collection.
\<close>

definition importMerge :: "'i quote list \<Rightarrow> 'i quote list \<Rightarrow> 'i quote list \<times> nat \<times> nat" where
  "importMerge existing incoming =
     (let st = import_loop existing incoming in (i_quotes st, i_added st, i_skipped st))"

section \<open>Sync: \<^verbatim>\<open>mergeServerQuotes\<close>\<close>

text \<open>
  \<^verbatim>\<open>
  function mergeServerQuotes(serverQuotes) {
    const localById = new Map(quotes.map(q => [q.id, q]));
    let added = 0, replaced = 0;
    for (const s of serverQuotes) {
      if (!localById.has(s.id)) {
        quotes.push(s);
        localById.set(s.id, s);
        added++;
      } else {
        const local = localById.get(s.id);
        if (local.text !== s.text || local.category !== s.category) {
          const idx = quotes.findIndex(q => q.id === s.id);
          if (idx >= 0) quotes[idx] = s;
          localById.set(s.id, s);
          replaced++;
        }
      }
    }
    return { added, replaced };
  }
  \<close>
  \<^verbatim>\<open>findIndex\<close> returns \<open>None\<close> where JavaScript returns \<open>-1\<close>. The \<^verbatim>\<open>Map\<close>
  constructor keeps the last entry of a key that occurs twice, hence the \<open>rev\<close> in
  \<open>sync_init\<close>.
\<close>

fun findIndex :: "('a \<Rightarrow> bool) \<Rightarrow> 'a list \<Rightarrow> nat option" where
  "findIndex P [] = None"
| "findIndex P (x # xs) = (if P x then Some 0 else map_option Suc (findIndex P xs))"

record 'i sync_state =
  s_quotes :: "'i quote list"
  s_localById :: "'i \<rightharpoonup> 'i quote"
  s_added :: nat
  s_replaced :: nat

definition sync_step :: "'i sync_state \<Rightarrow> 'i quote \<Rightarrow> 'i sync_state" where
  "sync_step st s =
     (case s_localById st (id_q s) of
        None \<Rightarrow>
          st\<lparr>s_quotes := s_quotes st @ [s],
             s_localById := (s_localById st)(id_q s \<mapsto> s),
             s_added := s_added st + 1\<rparr>
      | Some local \<Rightarrow>
          if text_q local \<noteq> text_q s \<or> category local \<noteq> category s
          then st\<lparr>s_quotes :=
                    (case findIndex (\<lambda>q. id_q q = id_q s) (s_quotes st) of
                       Some idx \<Rightarrow> (s_quotes st)[idx := s]
                     | None \<Rightarrow> s_quotes st),
                  s_localById := (s_localById st)(id_q s \<mapsto> s),
                  s_replaced := s_replaced st + 1\<rparr>
          else st)"

definition sync_init :: "'i quote list \<Rightarrow> 'i sync_state" where
  "sync_init qs =
     \<lparr>s_quotes = qs, s_localById = map_of (rev (map (\<lambda>q. (id_q q, q)) qs)),
      s_added = 0, s_replaced = 0\<rparr>"

definition sync_loop :: "'i quote list \<Rightarrow> 'i quote list \<Rightarrow> 'i sync_state" where
  "sync_loop qs serverQuotes = foldl sync_step (sync_init qs) serverQuotes"

text \<open>
  \<open>mergeServerQuotes\<close> returns the array it has mutated together with the two counters;
  this is the spec's \<open>syncMerge(existing, incoming) -> (merged, addedCount, replacedCount)\<close>.
\<close>

definition mergeServerQuotes :: "'i quote list \<Rightarrow> 'i quote list \<Rightarrow> 'i quote list \<times> nat \<times> nat" where
  "mergeServerQuotes qs serverQuotes =
     (let st = sync_loop qs serverQuotes in (s_quotes st, s_added st, s_replaced st))"

section \<open>Strings\<close>

text \<open>
  A JavaScript string is a \<open>string\<close>, each \<open>char\<close> one code unit below 256 (the
  Latin-1 range). \<^verbatim>\<open>String.prototype.trim\<close> removes white space and line terminators
  from both ends; in this range these are the code units 9 to 13, 32 and 160.
  \<^verbatim>\<open>toLowerCase\<close> maps \<open>A\<close>..\<open>Z\<close> and the upper-case letters 192..222 (not the
  multiplication sign 215) to the code unit 32 above and leaves the others alone.
\<close>

definition isWhiteSpace :: "char \<Rightarrow> bool" where
  "isWhiteSpace c \<longleftrightarrow> (of_char c :: nat) \<in> {9, 10, 11, 12, 13, 32, 160}"

definition trim :: "string \<Rightarrow> string" where
  "trim s = rev (dropWhile isWhiteSpace (rev (dropWhile isWhiteSpace s)))"

definition toLowerCase_char :: "char \<Rightarrow> char" where
  "toLowerCase_char c =
     (let n = (of_char c :: nat)
      in if (65 \<le> n \<and> n \<le> 90) \<or> (192 \<le> n \<and> n \<le> 222 \<and> n \<noteq> 215)
         then char_of (n + 32) else c)"

definition toLowerCase :: "string \<Rightarrow> string" where
  "toLowerCase s = map toLowerCase_char s"

text \<open>
  The decimal numeral of a non-negative integer, as a template literal or
  \<^verbatim>\<open>String(n)\<close> renders the value of \<^verbatim>\<open>Date.now()\<close>.
\<close>

fun show_nat :: "nat \<Rightarrow> string" where
  "show_nat n =
     (if n < 10 then [char_of (48 + n)]
      else show_nat (n div 10) @ [char_of (48 + n mod 10)])"

declare show_nat.simps [simp del]

section \<open>JSON values as the program reads them\<close>

text \<open>
  \<open>truthy\<close> is the conversion to boolean that \<^verbatim>\<open>&&\<close>, \<^verbatim>\<open>||\<close> and
  \<^verbatim>\<open>!\<close> apply. \<open>property x name\<close> is the read \<^verbatim>\<open>x.name\<close> for the six property
  names the program uses, \<open>None\<close> standing for \<^verbatim>\<open>undefined\<close>: only an object has
  such a property. (The read throws on \<^verbatim>\<open>null\<close>; every read below is guarded by
  the truth of \<open>x\<close>.) \<open>or_else p d\<close> is \<^verbatim>\<open>p || d\<close>.
\<close>

fun truthy :: "json \<Rightarrow> bool" where
  "truthy JNull = False"
| "truthy (JBool b) = b"
| "truthy (JNum n) = (n \<noteq> 0)"
| "truthy (JStr s) = (s \<noteq> [])"
| "truthy (JArr xs) = True"
| "truthy (JObj ps) = True"

fun property :: "json \<Rightarrow> string \<Rightarrow> json option" where
  "property (JObj ps) name = map_of ps name"
| "property x name = None"

fun typeof_string :: "json option \<Rightarrow> bool" where
  "typeof_string (Some (JStr s)) = True"
| "typeof_string v = False"

fun string_of :: "json option \<Rightarrow> string" where
  "string_of (Some (JStr s)) = s"
| "string_of v = []"

fun number_or :: "json option \<Rightarrow> int \<Rightarrow> int" where
  "number_or (Some (JNum n)) d = n"
| "number_or v d = d"

fun or_else :: "json option \<Rightarrow> json \<Rightarrow> json" where
  "or_else (Some v) d = (if truthy v then v else d)"
| "or_else None d = d"

section \<open>The import normaliser\<close>

text \<open>
  \<^verbatim>\<open>
  const normalized = raw
    .filter(x => x && typeof x.text === "string" && typeof x.category === "string")
    .map(x => ({
      id: x.id || `import-${Date.now()}-${Math.random().toString(36).slice(2,7)}`,
      text: x.text.trim(),
      category: x.category.trim().toLowerCase(),
      source: x.source || "import",
      version: typeof x.version === "number" ? x.version : 1,
      lastUpdated: typeof x.lastUpdated === "number" ? x.lastUpdated : Date.now()
    }));
  \<close>
  (\<^verbatim>\<open>normalizeImported\<close> in the variant that names it.) What \<^verbatim>\<open>Date.now()\<close> and
  \<^verbatim>\<open>Math.random().toString(36).slice(2,7)\<close> return while one quote object is built
  is an input, a record of \<open>readings\<close>; \<open>rd k\<close> holds the readings for the \<open>k\<close>-th
  element that passes the filter.
\<close>

record readings =
  now_id :: nat
  rand36 :: string
  now_lastUpdated :: nat

definition valid_item :: "json \<Rightarrow> bool" where
  "valid_item x \<longleftrightarrow>
     truthy x \<and> typeof_string (property x ''text'') \<and> typeof_string (property x ''category'')"

definition normalize_item :: "readings \<Rightarrow> json \<Rightarrow> json quote" where
  "normalize_item r x =
     \<lparr>id_q = or_else (property x ''id'')
               (JStr (''import-'' @ show_nat (now_id r) @ ''-'' @ rand36 r)),
      text_q = trim (string_of (property x ''text'')),
      category = toLowerCase (trim (string_of (property x ''category''))),
      source = or_else (property x ''source'') (JStr ''import''),
      version = number_or (property x ''version'') 1,
      lastUpdated = number_or (property x ''lastUpdated'') (int (now_lastUpdated r))\<rparr>"

definition normalizeImported :: "(nat \<Rightarrow> readings) \<Rightarrow> json list \<Rightarrow> json quote list" where
  "normalizeImported rd arr =
     map (\<lambda>(k, x). normalize_item (rd k) x) (enumerate 0 (filter valid_item arr))"

section \<open>Storage and the state of the page\<close>

text \<open>
  \<^verbatim>\<open>localStorage\<close> is the sequence of the \<^verbatim>\<open>setItem\<close> calls made so far, the
  latest last (its initial content is the initial sequence); \<^verbatim>\<open>getItem\<close> returns the
  latest value written under the key, \<open>None\<close> for \<^verbatim>\<open>null\<close>.
  \<^verbatim>\<open>JSON.parse\<close> (\<open>None\<close> when it throws), \<^verbatim>\<open>JSON.stringify(v)\<close> and
  \<^verbatim>\<open>JSON.stringify(v, null, 2)\<close> belong to the platform and are parameters.
\<close>

type_synonym storage = "(string \<times> string) list"

definition getItem :: "storage \<Rightarrow> string \<Rightarrow> string option" where
  "getItem ls key = map_of (rev ls) key"

definition setItem :: "string \<Rightarrow> string \<Rightarrow> storage \<Rightarrow> storage" where
  "setItem key v ls = ls @ [(key, v)]"

definition STORAGE_QUOTES :: string where
  "STORAGE_QUOTES = ''dqg.quotes''"

definition STORAGE_LAST_CATEGORY :: string where
  "STORAGE_LAST_CATEGORY = ''dqg.lastCategory''"

definition STORAGE_LAST_SYNC :: string where
  "STORAGE_LAST_SYNC = ''dqg.lastSyncTs''"

record platform =
  JSON_parse :: "string \<Rightarrow> json option"
  JSON_stringify :: "json \<Rightarrow> string"
  JSON_stringify_2 :: "json \<Rightarrow> string"

text \<open>
  The last message given to \<^verbatim>\<open>setStatus\<close>: \<open>Imported a s\<close> is
  \<^verbatim>\<open>Quotes imported successfully! Added a, skipped s.\<close>, \<open>Synced a r\<close> is
  \<^verbatim>\<open>Synced with server. Added a, resolved r conflicts.\<close>, \<open>SyncedNoChanges\<close> is
  \<^verbatim>\<open>Synced with server. No changes.\<close>, \<open>EnterBoth\<close> is
  \<^verbatim>\<open>Please enter BOTH quote text and category.\<close>; \<open>ImportFailed\<close> and
  \<open>SyncError\<close> are the two warnings of the \<^verbatim>\<open>catch\<close> blocks.
\<close>

datatype status =
    NoStatus
  | EnterBoth
  | QuoteAdded
  | Exported
  | Imported nat nat
  | ImportFailed
  | Synced nat nat
  | SyncedNoChanges
  | SyncError

text \<open>
  The state: the global \<^verbatim>\<open>quotes\<close>, \<^verbatim>\<open>localStorage\<close>, the value of the
  category \<^verbatim>\<open>select\<close> element and the status box. Rendering
  (\<^verbatim>\<open>showRandomQuote\<close>, \<^verbatim>\<open>renderMatchesList\<close>) changes none of them and is
  left out.
\<close>

record app =
  quotes :: "json quote list"
  localStorage :: storage
  categoryFilter :: string
  statusBox :: status

definition json_of_quote :: "json quote \<Rightarrow> json" where
  "json_of_quote q =
     JObj [(''id'', id_q q), (''text'', JStr (text_q q)), (''category'', JStr (category q)),
           (''source'', source q), (''version'', JNum (version q)),
           (''lastUpdated'', JNum (lastUpdated q))]"

text \<open>
  \<^verbatim>\<open>function saveQuotes() { localStorage.setItem(STORAGE.QUOTES, JSON.stringify(quotes)); }\<close>
\<close>

definition saveQuotes :: "platform \<Rightarrow> app \<Rightarrow> app" where
  "saveQuotes P st =
     st\<lparr>localStorage :=
          setItem STORAGE_QUOTES (JSON_stringify P (JArr (map json_of_quote (quotes st))))
            (localStorage st)\<rparr>"

text \<open>
  \<^verbatim>\<open>
  function uniqCategories() {
    const s = new Set(quotes.map(q => (q.category || "").trim()).filter(Boolean));
    return [...s].sort((a, b) => a.localeCompare(b));
  }
  function populateCategories() {
    const select = els.categoryFilter();
    const previous = localStorage.getItem(STORAGE.LAST_CATEGORY) || select.value || "all";
    select.innerHTML = `<option value="all">All Categories</option>`;
    for (const cat of uniqCategories()) { ... select.appendChild(opt); }
    const options = [...select.options].map(o => o.value);
    select.value = options.includes(previous) ? previous : "all";
    localStorage.setItem(STORAGE.LAST_CATEGORY, select.value);
  }
  \<close>
  The order that \<^verbatim>\<open>localeCompare\<close> gives the options is not modelled: only membership
  in the list is used.
\<close>

definition uniqCategories :: "json quote list \<Rightarrow> string list" where
  "uniqCategories qs = remdups (filter (\<lambda>c. c \<noteq> []) (map (\<lambda>q. trim (category q)) qs))"

definition populateCategories :: "app \<Rightarrow> app" where
  "populateCategories st =
     (let fallback = (if categoryFilter st \<noteq> [] then categoryFilter st else ''all'');
          previous = (case getItem (localStorage st) STORAGE_LAST_CATEGORY of
                        Some v \<Rightarrow> if v \<noteq> [] then v else fallback
                      | None \<Rightarrow> fallback);
          options = ''all'' # uniqCategories (quotes st);
          v = (if previous \<in> set options then previous else ''all'')
      in st\<lparr>categoryFilter := v,
            localStorage := setItem STORAGE_LAST_CATEGORY v (localStorage st)\<rparr>)"

section \<open>\<^verbatim>\<open>addQuote\<close>\<close>

text \<open>
  \<^verbatim>\<open>
  const text = (textEl.value || "").trim();
  const category = (catEl.value || "").trim().toLowerCase();
  if (!text || !category) { setStatus("Please enter BOTH quote text and category.", "warn"); return; }
  const q = { id: `local-${Date.now()}-${Math.random().toString(36).slice(2,7)}`,
              text, category, source: "local", version: 1, lastUpdated: Date.now() };
  quotes.push(q);
  saveQuotes();
  populateCategories();
  ...
  setStatus("Quote added");
  \<close>
  The two arguments after the readings are the values of the two input elements.
\<close>

definition local_id :: "readings \<Rightarrow> json" where
  "local_id r = JStr (''local-'' @ show_nat (now_id r) @ ''-'' @ rand36 r)"

definition addQuote :: "platform \<Rightarrow> readings \<Rightarrow> string \<Rightarrow> string \<Rightarrow> app \<Rightarrow> app" where
  "addQuote P r textValue catValue st =
     (let text = trim textValue; cat = toLowerCase (trim catValue)
      in if text = [] \<or> cat = [] then st\<lparr>statusBox := EnterBoth\<rparr>
         else (populateCategories (saveQuotes P (st\<lparr>quotes := quotes st @
                 [\<lparr>id_q = local_id r, text_q = text, category = cat,
                   source = JStr ''local'', version = 1,
                   lastUpdated = int (now_lastUpdated r)\<rparr>]\<rparr>)))\<lparr>statusBox := QuoteAdded\<rparr>)"

section \<open>Export and import of a file\<close>


text \<open>
  The \<^verbatim>\<open>onload\<close> handler of \<^verbatim>\<open>importFromJsonFile\<close>, applied to the content of
  the chosen file:
  \<^verbatim>\<open>
  try {
    const raw = JSON.parse(ev.target.result);
    if (!Array.isArray(raw)) throw new Error("File must contain an array of quotes.");
    const normalized = ...;
    ... the merge loop ...
    saveQuotes();
    populateCategories();
    showRandomQuote();
    setStatus(`Quotes imported successfully! Added ${added}, skipped ${skipped}.`);
  } catch (e) { setStatus(`Import failed: ${e.message}`, "warn"); }
  \<close>
\<close>

definition importFromJsonFile :: "platform \<Rightarrow> (nat \<Rightarrow> readings) \<Rightarrow> string \<Rightarrow> app \<Rightarrow> app" where
  "importFromJsonFile P rd content st =
     (case JSON_parse P content of
        None \<Rightarrow> st\<lparr>statusBox := ImportFailed\<rparr>
      | Some raw \<Rightarrow>
          (case raw of
             JArr arr \<Rightarrow>
               (let m = import_loop (quotes st) (normalizeImported rd arr)
                in (populateCategories (saveQuotes P (st\<lparr>quotes := i_quotes m\<rparr>)))
                     \<lparr>statusBox := Imported (i_added m) (i_skipped m)\<rparr>)
           | _ \<Rightarrow> st\<lparr>statusBox := ImportFailed\<rparr>))"

section \<open>\<^verbatim>\<open>syncWithServer\<close>\<close>

text \<open>
  \<^verbatim>\<open>
  try {
    const serverQuotes = await fetchServerQuotes();
    const { added, replaced } = mergeServerQuotes(serverQuotes);
    if (added || replaced) {
      saveQuotes();
      populateCategories();
      ...
      setStatus(`Synced with server. Added ${added}, resolved ${replaced} conflicts.`);
    } else {
      setStatus("Synced with server. No changes.");
    }
    localStorage.setItem(STORAGE.LAST_SYNC, String(Date.now()));
  } catch (e) { setStatus(`Sync error: ${e.message}`, "warn"); }
  \<close>
  The outcome of \<^verbatim>\<open>await fetchServerQuotes()\<close> is an input: \<open>None\<close> when it throws,
  the quotes it returns otherwise. \<open>now\<close> is the reading of \<^verbatim>\<open>Date.now()\<close>.
\<close>

definition syncWithServer :: "platform \<Rightarrow> nat \<Rightarrow> json quote list option \<Rightarrow> app \<Rightarrow> app" where
  "syncWithServer P now fetched st =
     (case fetched of
        None \<Rightarrow> st\<lparr>statusBox := SyncError\<rparr>
      | Some serverQuotes \<Rightarrow>
          (let m = sync_loop (quotes st) serverQuotes;
               st1 = st\<lparr>quotes := s_quotes m\<rparr>;
               st2 = (if s_added m \<noteq> 0 \<or> s_replaced m \<noteq> 0
                      then (populateCategories (saveQuotes P st1))
                             \<lparr>statusBox := Synced (s_added m) (s_replaced m)\<rparr>
                      else st1\<lparr>statusBox := SyncedNoChanges\<rparr>)
           in st2\<lparr>localStorage := setItem STORAGE_LAST_SYNC (show_nat now) (localStorage st2)\<rparr>))"

section \<open>Initial load\<close>

text \<open>
  \<^verbatim>\<open>
  function readLocalQuotes() {
    try {
      const raw = localStorage.getItem(STORAGE.QUOTES);
      if (!raw) return null;
      const arr = JSON.parse(raw);
      return Array.isArray(arr) ? arr : null;
    } catch { return null; }
  }
  function loadInitialData() {
    const local = readLocalQuotes();
    if (local && local.length) { quotes = local; }
    else { quotes = [...SEED_QUOTES]; saveQuotes(); }
  }
  \<close>
  The stored array is taken as it is parsed, so the collection after the load is a list
  of JSON values. \<open>now k\<close> is the reading of \<^verbatim>\<open>Date.now()\<close> in the \<open>k\<close>-th seed.
\<close>

definition SEED_QUOTES :: "(nat \<Rightarrow> nat) \<Rightarrow> json quote list" where
  "SEED_QUOTES now =
     [\<lparr>id_q = JStr ''seed-1'',
       text_q = ''The only way to do great work is to love what you do.'',
       category = ''inspiration'', source = JStr ''seed'', version = 1,
       lastUpdated = int (now 0)\<rparr>,
      \<lparr>id_q = JStr ''seed-2'', text_q = ''Simplicity is the soul of efficiency.'',
       category = ''productivity'', source = JStr ''seed'', version = 1,
       lastUpdated = int (now 1)\<rparr>,
      \<lparr>id_q = JStr ''seed-3'', text_q = ''What we think, we become.'',
       category = ''mindset'', source = JStr ''seed'', version = 1,
       lastUpdated = int (now 2)\<rparr>,
      \<lparr>id_q = JStr ''seed-4'', text_q = ''Talk is cheap. Show me the code.'',
       category = ''programming'', source = JStr ''seed'', version = 1,
       lastUpdated = int (now 3)\<rparr>]"

definition readLocalQuotes :: "platform \<Rightarrow> storage \<Rightarrow> json list option" where
  "readLocalQuotes P ls =
     (case getItem ls STORAGE_QUOTES of
        None \<Rightarrow> None
      | Some raw \<Rightarrow>
          if raw = [] then None
          else (case JSON_parse P raw of
                  None \<Rightarrow> None
                | Some arr \<Rightarrow> (case arr of JArr xs \<Rightarrow> Some xs | _ \<Rightarrow> None)))"

definition loadInitialData :: "platform \<Rightarrow> (nat \<Rightarrow> nat) \<Rightarrow> storage \<Rightarrow> json list \<times> storage" where
  "loadInitialData P now ls =
     (let seed = map json_of_quote (SEED_QUOTES now);
          seeded = (seed, setItem STORAGE_QUOTES (JSON_stringify P (JArr seed)) ls)
      in case readLocalQuotes P ls of
           None \<Rightarrow> seeded
         | Some local \<Rightarrow> if local \<noteq> [] then (local, ls) else seeded)"

section \<open>Sequences of operations\<close>

text \<open>
  The three operations that change the collection, each with its inputs, and a run of
  them from a state.
\<close>

datatype op =
    Add readings string string
  | Import "nat \<Rightarrow> readings" string
  | Sync nat "json quote list option"

fun apply_op :: "platform \<Rightarrow> app \<Rightarrow> op \<Rightarrow> app" where
  "apply_op P st (Add r textValue catValue) = addQuote P r textValue catValue st"
| "apply_op P st (Import rd content) = importFromJsonFile P rd content st"
| "apply_op P st (Sync now fetched) = syncWithServer P now fetched st"

definition run :: "platform \<Rightarrow> app \<Rightarrow> op list \<Rightarrow> app" where
  "run P st ops = foldl (apply_op P) st ops"

definition ids :: "'i quote list \<Rightarrow> 'i list" where
  "ids qs = map id_q qs"

text \<open>
  \<open>add_accepted\<close>: \<^verbatim>\<open>addQuote\<close> gets past its test of the two inputs and builds a
  record. \<open>fresh_adds P st ops\<close>: along the run, every \<^verbatim>\<open>addQuote\<close> that builds
  a record draws an id that no record of the collection has at that moment.
\<close>

definition add_accepted :: "string \<Rightarrow> string \<Rightarrow> bool" where
  "add_accepted textValue catValue \<longleftrightarrow>
     trim textValue \<noteq> [] \<and> toLowerCase (trim catValue) \<noteq> []"

fun fresh_adds :: "platform \<Rightarrow> app \<Rightarrow> op list \<Rightarrow> bool" where
  "fresh_adds P st [] = True"
| "fresh_adds P st (Add r textValue catValue # ops) =
     ((add_accepted textValue catValue \<longrightarrow> local_id r \<notin> set (ids (quotes st)))
      \<and> fresh_adds P (addQuote P r textValue catValue st) ops)"
| "fresh_adds P st (x # ops) = fresh_adds P (apply_op P st x) ops"

text \<open>
  \<open>scalar v\<close>: the value is \<^verbatim>\<open>null\<close>, a boolean, a number or a string, which
  \<^verbatim>\<open>Set.has\<close>, \<^verbatim>\<open>Map.has\<close> and \<^verbatim>\<open>===\<close> compare by value; an array or
  an object they compare by reference. \<open>scalar_id x\<close>: the \<^verbatim>\<open>id\<close> of the raw
  element \<open>x\<close>, when it has one, is scalar. \<open>scalar_input P x\<close>: the operation brings
  no id that is an array or an object, neither in the array its file parses to nor in
  the quotes that were fetched.
\<close>

fun scalar :: "json \<Rightarrow> bool" where
  "scalar (JArr xs) = False"
| "scalar (JObj ps) = False"
| "scalar v = True"

definition scalar_id :: "json \<Rightarrow> bool" where
  "scalar_id x = (case property x ''id'' of None \<Rightarrow> True | Some v \<Rightarrow> scalar v)"

fun scalar_input :: "platform \<Rightarrow> op \<Rightarrow> bool" where
  "scalar_input P (Add r textValue catValue) = True"
| "scalar_input P (Import rd content) =
     (case JSON_parse P content of
        Some (JArr arr) \<Rightarrow> list_all scalar_id arr
      | _ \<Rightarrow> True)"
| "scalar_input P (Sync now fetched) =
     (case fetched of Some serverQuotes \<Rightarrow> list_all scalar (ids serverQuotes) | None \<Rightarrow> True)"

section \<open>Predicates of the statements\<close>

text \<open>
  \<open>sync_inv\<close>: the ids of the collection are pairwise distinct and \<^verbatim>\<open>localById\<close>
  maps each of them to its record. \<open>import_inv\<close>: \<^verbatim>\<open>seenId\<close> holds the ids of the
  collection.
\<close>

definition sync_inv :: "'i sync_state \<Rightarrow> bool" where
  "sync_inv st \<longleftrightarrow>
     distinct (ids (s_quotes st))
     \<and> (\<forall>k q. s_localById st k = Some q \<longleftrightarrow> q \<in> set (s_quotes st) \<and> id_q q = k)"

definition import_inv :: "'i import_state \<Rightarrow> bool" where
  "import_inv st \<longleftrightarrow> i_seenId st = set (ids (i_quotes st))"

text \<open>
  \<open>covered qs s\<close>: the collection holds a record with the id, text and category of
  \<open>s\<close>. \<open>consistent_ids ss\<close>: records of \<open>ss\<close> with the same id have the same text and
  category (so it is when the ids of \<open>ss\<close> are pairwise distinct).
\<close>

definition covered :: "'i quote list \<Rightarrow> 'i quote \<Rightarrow> bool" where
  "covered qs s \<longleftrightarrow>
     list_ex (\<lambda>r. id_q r = id_q s \<and> text_q r = text_q s \<and> category r = category s) qs"

definition consistent_ids :: "'i quote list \<Rightarrow> bool" where
  "consistent_ids ss \<longleftrightarrow>
     list_all (\<lambda>s. list_all (\<lambda>t. id_q s = id_q t \<longrightarrow>
                                  text_q s = text_q t \<and> category s = category t) ss) ss"


definition text_category :: "'i quote \<Rightarrow> string \<times> string" where
  "text_category q = (text_q q, category q)"

definition normal :: "json quote \<Rightarrow> bool" where
  "normal q \<longleftrightarrow>
     truthy (id_q q) \<and> trim (text_q q) = text_q q \<and> toLowerCase (trim (category q)) = category q"

text \<open>
  \<open>expected_content x\<close>: the trimmed text and the trimmed, lower-case category of a
  raw element.
\<close>

definition expected_content :: "json \<Rightarrow> string \<times> string" where
  "expected_content x =
     (trim (string_of (property x ''text'')),
      toLowerCase (trim (string_of (property x ''category''))))"

text \<open>The keys written to \<^verbatim>\<open>localStorage\<close> between two states, in order.\<close>

definition keys_written :: "app \<Rightarrow> app \<Rightarrow> string list" where
  "keys_written st st' = map fst (drop (length (localStorage st)) (localStorage st'))"

section \<open>Example records\<close>

text \<open>
  \<open>server_quote i t\<close> is the quote \<^verbatim>\<open>fetchServerQuotes\<close> makes of a post: category
  and source \<^verbatim>\<open>"server"\<close>, version 1. \<open>user_quote i t c\<close> is a quote of the user's.
\<close>

definition server_quote :: "string \<Rightarrow> string \<Rightarrow> json quote" where
  "server_quote i t =
     \<lparr>id_q = JStr i, text_q = t, category = ''server'', source = JStr ''server'',
      version = 1, lastUpdated = 0\<rparr>"

definition user_quote :: "string \<Rightarrow> string \<Rightarrow> string \<Rightarrow> json quote" where
  "user_quote i t c =
     \<lparr>id_q = JStr i, text_q = t, category = c, source = JStr ''local'',
      version = 1, lastUpdated = 0\<rparr>"

text \<open>
  Readings of the clock and of the random suffix for the examples: the clock advances by
  one per element, the suffix is always the same.
\<close>

definition example_readings :: "nat \<Rightarrow> readings" where
  "example_readings k =
     \<lparr>now_id = 1700000000000 + k, rand36 = ''k3x9a'', now_lastUpdated = 1700000000000 + k\<rparr>"

text \<open>
  The page before anything is loaded, and a stand-in for the platform that knows one JSON
  text: \<^verbatim>\<open>JSON.stringify\<close> gives \<open>content\<close> for the value \<open>v\<close> and
  \<^verbatim>\<open>JSON.parse\<close> reads \<open>content\<close> as \<open>v\<close>.
\<close>

definition empty_app :: app where
  "empty_app = \<lparr>quotes = [], localStorage = [], categoryFilter = ''all'', statusBox = NoStatus\<rparr>"

definition one_text_platform :: "string \<Rightarrow> json \<Rightarrow> platform" where
  "one_text_platform content v =
     \<lparr>JSON_parse = (\<lambda>s. if s = content then Some v else None),
      JSON_stringify = (\<lambda>w. if w = v then content else []),
      JSON_stringify_2 = (\<lambda>w. if w = v then content else [])\<rparr>"

section \<open>The import loop only appends\<close>

lemma import_step_grows:
  "\<exists>new. i_quotes (import_step st q) = i_quotes st @ new
         \<and> i_added (import_step st q) = i_added st + length new"
  by (simp add: import_step_def)

lemma import_fold_grows:
  "\<exists>new. i_quotes (foldl import_step st qs) = i_quotes st @ new
         \<and> i_added (foldl import_step st qs) = i_added st + length new"
proof (induction qs arbitrary: st)
  case Nil
  show ?case by simp
next
  case (Cons q qs)
  obtain n1 where n1: "i_quotes (import_step st q) = i_quotes st @ n1"
      "i_added (import_step st q) = i_added st + length n1"
    using import_step_grows by blast
  obtain n2 where n2:
      "i_quotes (foldl import_step (import_step st q) qs) = i_quotes (import_step st q) @ n2"
      "i_added (foldl import_step (import_step st q) qs) = i_added (import_step st q) + length n2"
    using Cons.IH by blast
  have "i_quotes (foldl import_step st (q # qs)) = i_quotes st @ (n1 @ n2)"
    using n1 n2 by simp
  moreover have "i_added (foldl import_step st (q # qs)) = i_added st + length (n1 @ n2)"
    using n1 n2 by simp
  ultimately show ?case by blast
qed

lemma import_loop_grows:
  "\<exists>new. i_quotes (import_loop qs inc) = qs @ new \<and> i_added (import_loop qs inc) = length new"
  using import_fold_grows [of "import_init qs" inc]
  by (simp add: import_loop_def import_init_def)

text \<open>
  C3. Import is strictly additive: whatever the incoming sequence, the merged collection
  starts with the existing collection, record for record and in the same positions, and
  its size is the size of the existing collection plus \<open>addedCount\<close>.
\<close>

theorem import_additive:
  "take (length existing) (fst (importMerge existing incoming)) = existing
   \<and> length (fst (importMerge existing incoming))
       = length existing + fst (snd (importMerge existing incoming))"
proof -
  obtain new where "i_quotes (import_loop existing incoming) = existing @ new"
      and "i_added (import_loop existing incoming) = length new"
    using import_loop_grows by blast
  then show ?thesis by (simp add: importMerge_def Let_def)
qed

text \<open>
  C7. Import de-duplicates on content: when the existing collection holds a record with
  the text and category of the incoming record \<open>q\<close>, then \<open>q\<close>, whatever its id (a fresh
  one included) and wherever it stands in the incoming sequence, adds one to
  \<open>skippedCount\<close> and leaves the collection and \<open>addedCount\<close> as they were.
\<close>

theorem import_content_dedup:
  assumes "x \<in> set existing" and "text_q x = text_q q" and "category x = category q"
  shows "importMerge existing (pre @ [q]) =
           (case importMerge existing pre of (m, a, k) \<Rightarrow> (m, a, k + 1))"
proof -
  let ?st = "import_loop existing pre"
  obtain new where "i_quotes ?st = existing @ new" using import_loop_grows by blast
  with assms(1) have "x \<in> set (i_quotes ?st)" by simp
  with assms(2,3) have "list_ex (\<lambda>x. same_content x q) (i_quotes ?st)"
    by (auto simp: list_ex_iff same_content_def)
  then have "import_step ?st q = ?st\<lparr>i_skipped := i_skipped ?st + 1\<rparr>"
    by (simp add: import_step_def)
  moreover have "import_loop existing (pre @ [q]) = import_step ?st q"
    by (simp add: import_loop_def)
  ultimately show ?thesis by (simp add: importMerge_def Let_def)
qed

text \<open>
  The record \<^verbatim>\<open>import-9\<close> has an id the collection does not know and the text and
  category of \<^verbatim>\<open>seed-9\<close>: it is skipped and the collection does not grow.
\<close>

theorem import_content_dedup_witness:
  "importMerge [user_quote ''seed-9'' ''Hi'' ''wisdom''] [user_quote ''import-9'' ''Hi'' ''wisdom'']
     = ([user_quote ''seed-9'' ''Hi'' ''wisdom''], 0, 1)"
proof -
  let ?x = "user_quote ''seed-9'' ''Hi'' ''wisdom''"
  let ?q = "user_quote ''import-9'' ''Hi'' ''wisdom''"
  have m: "?x \<in> set [?x]" by simp
  have t: "text_q ?x = text_q ?q" by (simp add: user_quote_def)
  have c: "category ?x = category ?q" by (simp add: user_quote_def)
  have e: "importMerge [?x] [] = ([?x], 0, 0)"
    by (simp add: importMerge_def import_loop_def import_init_def)
  from import_content_dedup [OF m t c, of "[]"] e show ?thesis by simp
qed

section \<open>The sync loop\<close>

lemma findIndex_Some:
  "findIndex P xs = Some i \<Longrightarrow> i < length xs \<and> P (xs ! i) \<and> (\<forall>j<i. \<not> P (xs ! j))"
proof (induction xs arbitrary: i)
  case Nil
  then show ?case by simp
next
  case (Cons x xs)
  show ?case
  proof (cases "P x")
    case True
    with Cons.prems show ?thesis by simp
  next
    case False
    with Cons.prems obtain k where k: "findIndex P xs = Some k" "i = Suc k"
      by auto
    from Cons.IH [OF k(1)] False k(2) show ?thesis
      by (auto simp: nth_Cons split: nat.splits)
  qed
qed

lemma findIndex_None: "findIndex P xs = None \<Longrightarrow> \<forall>x\<in>set xs. \<not> P x"
  by (induction xs) (auto split: if_splits)

lemma sync_step_length:
  "length (s_quotes (sync_step st s)) + s_added st
     = length (s_quotes st) + s_added (sync_step st s)"
  by (auto simp: sync_step_def split: option.splits)

lemma sync_step_nth_other:
  "i < length (s_quotes st) \<Longrightarrow> id_q (s_quotes st ! i) \<noteq> id_q s \<Longrightarrow>
   s_quotes (sync_step st s) ! i = s_quotes st ! i"
  by (auto simp: sync_step_def nth_append nth_list_update split: option.splits
           dest: findIndex_Some)

lemma sync_step_length_le: "length (s_quotes st) \<le> length (s_quotes (sync_step st s))"
  by (auto simp: sync_step_def split: option.splits)

lemma sync_fold_length:
  "length (s_quotes (foldl sync_step st ss)) + s_added st
     = length (s_quotes st) + s_added (foldl sync_step st ss)"
proof (induction ss arbitrary: st)
  case Nil
  show ?case by simp
next
  case (Cons s ss)
  from Cons.IH [of "sync_step st s"] sync_step_length [of st s]
  show ?case by simp
qed

lemma sync_fold_nth_other:
  "i < length (s_quotes st) \<Longrightarrow> id_q (s_quotes st ! i) \<notin> id_q ` set ss \<Longrightarrow>
   s_quotes (foldl sync_step st ss) ! i = s_quotes st ! i"
proof (induction ss arbitrary: st)
  case Nil
  show ?case by simp
next
  case (Cons s ss)
  let ?st = "sync_step st s"
  have neq: "id_q (s_quotes st ! i) \<noteq> id_q s" using Cons.prems(2) by auto
  have same: "s_quotes ?st ! i = s_quotes st ! i"
    using sync_step_nth_other [OF Cons.prems(1) neq] .
  have lt: "i < length (s_quotes ?st)"
    using Cons.prems(1) sync_step_length_le [of st s] by simp
  have "id_q (s_quotes ?st ! i) \<notin> id_q ` set ss"
    using same Cons.prems(2) by auto
  from Cons.IH [OF lt this] same show ?case by simp
qed

text \<open>
  C9. \<^verbatim>\<open>mergeServerQuotes\<close> removes nothing and leaves alone what the server does
  not mention: the size of the merged collection is the size of the existing one plus
  \<open>addedCount\<close>, and an existing record whose id no incoming record has is found
  unchanged at its position.
\<close>

theorem sync_frame:
  "length (fst (mergeServerQuotes existing incoming))
     = length existing + fst (snd (mergeServerQuotes existing incoming))
   \<and> (\<forall>i<length existing. id_q (existing ! i) \<notin> id_q ` set incoming \<longrightarrow>
         fst (mergeServerQuotes existing incoming) ! i = existing ! i)"
proof -
  have "length (s_quotes (sync_loop existing incoming))
          = length existing + s_added (sync_loop existing incoming)"
    using sync_fold_length [of "sync_init existing" incoming]
    by (simp add: sync_loop_def sync_init_def)
  moreover have "\<forall>i<length existing. id_q (existing ! i) \<notin> id_q ` set incoming \<longrightarrow>
         s_quotes (sync_loop existing incoming) ! i = existing ! i"
    using sync_fold_nth_other [of _ "sync_init existing" incoming]
    by (simp add: sync_loop_def sync_init_def)
  ultimately show ?thesis by (simp add: mergeServerQuotes_def Let_def)
qed

text \<open>
  The server sends \<^verbatim>\<open>server-2\<close> changed and \<^verbatim>\<open>server-3\<close> new; the local
  record \<^verbatim>\<open>local-1\<close>, which it does not mention, stays first and unchanged.
\<close>

theorem sync_frame_witness:
  "length (fst (mergeServerQuotes
       [user_quote ''local-1'' ''A'' ''wisdom'', server_quote ''server-2'' ''B'']
       [server_quote ''server-2'' ''C'', server_quote ''server-3'' ''D'']))
     = 2 + fst (snd (mergeServerQuotes
       [user_quote ''local-1'' ''A'' ''wisdom'', server_quote ''server-2'' ''B'']
       [server_quote ''server-2'' ''C'', server_quote ''server-3'' ''D'']))
   \<and> fst (mergeServerQuotes
       [user_quote ''local-1'' ''A'' ''wisdom'', server_quote ''server-2'' ''B'']
       [server_quote ''server-2'' ''C'', server_quote ''server-3'' ''D'']) ! 0
     = user_quote ''local-1'' ''A'' ''wisdom''"
proof -
  let ?ex = "[user_quote ''local-1'' ''A'' ''wisdom'', server_quote ''server-2'' ''B'']"
  let ?inc = "[server_quote ''server-2'' ''C'', server_quote ''server-3'' ''D'']"
  have h: "id_q (?ex ! 0) \<notin> id_q ` set ?inc"
    by (simp add: user_quote_def server_quote_def)
  have l: "(0::nat) < length ?ex" by simp
  from sync_frame [of ?ex ?inc]
  have len: "length (fst (mergeServerQuotes ?ex ?inc))
      = length ?ex + fst (snd (mergeServerQuotes ?ex ?inc))"
    and fr: "\<forall>i<length ?ex. id_q (?ex ! i) \<notin> id_q ` set ?inc \<longrightarrow>
      fst (mergeServerQuotes ?ex ?inc) ! i = ?ex ! i"
    by blast+
  from fr l h have "fst (mergeServerQuotes ?ex ?inc) ! 0 = ?ex ! 0" by blast
  with len show ?thesis by simp
qed

section \<open>The invariant of the sync loop\<close>

lemma map_of_rev_ids:
  assumes d: "distinct (map id_q qs)"
  shows "map_of (rev (map (\<lambda>q. (id_q q, q)) qs)) k = Some q \<longleftrightarrow> q \<in> set qs \<and> id_q q = k"
proof -
  have "distinct (map fst (rev (map (\<lambda>q. (id_q q, q)) qs)))"
    using d by (simp add: rev_map [symmetric] comp_def distinct_rev)
  then have "map_of (rev (map (\<lambda>q. (id_q q, q)) qs)) k = Some q
      \<longleftrightarrow> (k, q) \<in> set (rev (map (\<lambda>q. (id_q q, q)) qs))"
    by (rule map_of_eq_Some_iff)
  then show ?thesis by auto
qed

lemma sync_init_inv: "distinct (ids qs) \<Longrightarrow> sync_inv (sync_init qs)"
  by (simp add: sync_inv_def sync_init_def map_of_rev_ids ids_def)

lemma distinct_ids_index:
  assumes "distinct (map id_q xs)" and "i < length xs" and "j < length xs"
    and "id_q (xs ! i) = id_q (xs ! j)"
  shows "i = j"
  using nth_eq_iff_index_eq [of "map id_q xs" i j] assms by simp

lemma findIndex_unique:
  assumes "distinct (map id_q xs)" and "i < length xs" and "id_q (xs ! i) = k"
  shows "findIndex (\<lambda>q. id_q q = k) xs = Some i"
proof (cases "findIndex (\<lambda>q. id_q q = k) xs")
  case None
  from findIndex_None [OF None] assms(2,3) show ?thesis
    using nth_mem by blast
next
  case (Some j)
  from findIndex_Some [OF Some] have "j < length xs" "id_q (xs ! j) = k" by auto
  with assms have "i = j" by (auto intro: distinct_ids_index)
  with Some show ?thesis by simp
qed

lemma set_replace:
  assumes "distinct (map id_q xs)" and "i < length xs" and "id_q (xs ! i) = id_q s"
  shows "set (xs[i := s]) = insert s {q \<in> set xs. id_q q \<noteq> id_q s}"
proof -
  have dx: "distinct xs" using assms(1) by (simp add: distinct_map)
  have "set (xs[i := s]) = insert s (set xs - {xs ! i})"
    using dx assms(2) by (rule set_update_distinct)
  moreover have "set xs - {xs ! i} = {q \<in> set xs. id_q q \<noteq> id_q s}"
  proof -
    have "\<And>q. q \<in> set xs \<Longrightarrow> id_q q = id_q s \<Longrightarrow> q = xs ! i"
    proof -
      fix q assume "q \<in> set xs" "id_q q = id_q s"
      then obtain j where "j < length xs" "xs ! j = q" by (auto simp: in_set_conv_nth)
      with assms \<open>id_q q = id_q s\<close> have "i = j" by (auto intro: distinct_ids_index)
      with \<open>xs ! j = q\<close> show "q = xs ! i" by simp
    qed
    with assms(3) show ?thesis by auto
  qed
  ultimately show ?thesis by simp
qed

lemma ids_replace:
  assumes "i < length xs" and "id_q (xs ! i) = id_q s"
  shows "map id_q (xs[i := s]) = map id_q xs"
  using assms by (simp add: map_update list_update_same_conv)

lemma sync_step_stored:
  assumes inv: "sync_inv st" and i: "i < length (s_quotes st)"
    and k: "id_q (s_quotes st ! i) = id_q s"
  shows "sync_step st s =
     (if text_q (s_quotes st ! i) \<noteq> text_q s \<or> category (s_quotes st ! i) \<noteq> category s
      then st\<lparr>s_quotes := (s_quotes st)[i := s],
              s_localById := (s_localById st)(id_q s \<mapsto> s),
              s_replaced := s_replaced st + 1\<rparr>
      else st)"
proof -
  from inv have d: "distinct (map id_q (s_quotes st))" by (simp add: sync_inv_def ids_def)
  have lk: "s_localById st (id_q s) = Some (s_quotes st ! i)"
    using inv i k by (simp add: sync_inv_def)
  have fi: "findIndex (\<lambda>q. id_q q = id_q s) (s_quotes st) = Some i"
    using findIndex_unique [OF d i k] .
  show ?thesis using lk fi by (simp add: sync_step_def)
qed

lemma sync_step_inv:
  assumes inv: "sync_inv st"
  shows "sync_inv (sync_step st s)"
proof (cases "s_localById st (id_q s)")
  case None
  have fresh: "\<forall>q\<in>set (s_quotes st). id_q q \<noteq> id_q s"
  proof
    fix q assume "q \<in> set (s_quotes st)"
    show "id_q q \<noteq> id_q s"
    proof
      assume "id_q q = id_q s"
      with \<open>q \<in> set (s_quotes st)\<close> inv have "s_localById st (id_q s) = Some q"
        by (simp add: sync_inv_def)
      with None show False by simp
    qed
  qed
  have st': "sync_step st s = st\<lparr>s_quotes := s_quotes st @ [s],
        s_localById := (s_localById st)(id_q s \<mapsto> s), s_added := s_added st + 1\<rparr>"
    using None by (simp add: sync_step_def)
  show ?thesis
    unfolding st' using inv fresh by (auto simp: sync_inv_def ids_def)
next
  case (Some l)
  from Some inv have l: "l \<in> set (s_quotes st)" "id_q l = id_q s"
    by (auto simp: sync_inv_def)
  then obtain i where i: "i < length (s_quotes st)" "s_quotes st ! i = l"
    by (auto simp: in_set_conv_nth)
  have k: "id_q (s_quotes st ! i) = id_q s" using i(2) l(2) by simp
  show ?thesis
  proof (cases "text_q l \<noteq> text_q s \<or> category l \<noteq> category s")
    case False
    with Some have "sync_step st s = st" by (simp add: sync_step_def)
    with inv show ?thesis by simp
  next
    case True
    from inv have d: "distinct (map id_q (s_quotes st))" by (simp add: sync_inv_def ids_def)
    have st': "sync_step st s = st\<lparr>s_quotes := (s_quotes st)[i := s],
        s_localById := (s_localById st)(id_q s \<mapsto> s), s_replaced := s_replaced st + 1\<rparr>"
      using sync_step_stored [OF inv i(1) k] True i(2) by simp
    have idl: "map id_q ((s_quotes st)[i := s]) = map id_q (s_quotes st)"
      using ids_replace [OF i(1) k] .
    have sr: "set ((s_quotes st)[i := s]) = insert s {q \<in> set (s_quotes st). id_q q \<noteq> id_q s}"
      using set_replace [OF d i(1) k] .
    show ?thesis
      unfolding st' using inv idl sr by (auto simp: sync_inv_def ids_def)
  qed
qed

lemma sync_fold_inv: "sync_inv st \<Longrightarrow> sync_inv (foldl sync_step st ss)"
  by (induction ss arbitrary: st) (simp_all add: sync_step_inv)

lemma sync_loop_inv: "distinct (ids qs) \<Longrightarrow> sync_inv (sync_loop qs ss)"
  by (simp add: sync_loop_def sync_fold_inv sync_init_inv)

lemma sync_loop_distinct: "distinct (ids qs) \<Longrightarrow> distinct (ids (s_quotes (sync_loop qs ss)))"
  using sync_loop_inv [of qs ss] by (simp add: sync_inv_def)

text \<open>
  C4, as the code has it. Server wins, in place, in a collection without a repeated
  id. Let the ids of the existing collection be pairwise distinct, and let \<open>stored\<close>
  be the collection at the moment
  the incoming record \<open>s\<close> is processed, after the records \<open>pre\<close> before it. If \<open>s\<close>
  has the id of the record at position \<open>i\<close> of \<open>stored\<close>, then: when that record
  differs from \<open>s\<close> in text or category, \<open>s\<close> takes its place at position \<open>i\<close> and
  \<open>replacedCount\<close> grows by one; when both are the same, nothing changes.
\<close>

theorem sync_server_wins:
  assumes "distinct (ids existing)"
    and "mergeServerQuotes existing pre = (stored, a, r)"
    and "i < length stored" and "id_q (stored ! i) = id_q s"
  shows "mergeServerQuotes existing (pre @ [s]) =
          (if text_q (stored ! i) \<noteq> text_q s \<or> category (stored ! i) \<noteq> category s
           then (stored[i := s], a, r + 1) else (stored, a, r))"
proof -
  let ?st = "sync_loop existing pre"
  have inv: "sync_inv ?st" using assms(1) by (rule sync_loop_inv)
  have st: "s_quotes ?st = stored" "s_added ?st = a" "s_replaced ?st = r"
    using assms(2) by (simp_all add: mergeServerQuotes_def Let_def)
  have step: "sync_loop existing (pre @ [s]) = sync_step ?st s"
    by (simp add: sync_loop_def)
  have i: "i < length (s_quotes ?st)" and k: "id_q (s_quotes ?st ! i) = id_q s"
    using assms(3,4) st by simp_all
  show ?thesis
    unfolding mergeServerQuotes_def Let_def step sync_step_stored [OF inv i k]
    using st by simp
qed

text \<open>
  The example of the spec: the local record \<^verbatim>\<open>server-1\<close> has text \<^verbatim>\<open>A\<close>, the
  incoming one text \<^verbatim>\<open>B\<close>; the merged collection holds the incoming record and
  \<open>replacedCount\<close> is 1.
\<close>

theorem sync_server_wins_witness:
  "mergeServerQuotes [server_quote ''server-1'' ''A''] [server_quote ''server-1'' ''B'']
     = ([server_quote ''server-1'' ''B''], 0, 1)"
proof -
  let ?l = "server_quote ''server-1'' ''A''"
  let ?s = "server_quote ''server-1'' ''B''"
  have d: "distinct (ids [?l])" by (simp add: ids_def)
  have e: "mergeServerQuotes [?l] [] = ([?l], 0, 0)"
    by (simp add: mergeServerQuotes_def sync_loop_def sync_init_def)
  have i: "(0::nat) < length [?l]" by simp
  have k: "id_q ([?l] ! 0) = id_q ?s" by (simp add: server_quote_def)
  have t: "text_q ?l \<noteq> text_q ?s" by (simp add: server_quote_def)
  from sync_server_wins [OF d e i k] t show ?thesis by simp
qed

text \<open>
  C4 as stated fails on a collection that holds one id twice, because \<^verbatim>\<open>localById\<close>
  keeps the last record of an id and \<^verbatim>\<open>findIndex\<close> finds the first. With the
  texts \<^verbatim>\<open>A1\<close> and \<^verbatim>\<open>A2\<close> stored under \<^verbatim>\<open>server-1\<close>, in this order:
  the incoming text \<^verbatim>\<open>A2\<close> differs from the first stored record, which is neither
  overwritten nor counted; the incoming text \<^verbatim>\<open>A1\<close> is that of the first stored
  record, and is counted as a replacement of it.
\<close>

theorem sync_repeated_stored_id:
  "mergeServerQuotes [server_quote ''server-1'' ''A1'', server_quote ''server-1'' ''A2'']
       [server_quote ''server-1'' ''A2'']
     = ([server_quote ''server-1'' ''A1'', server_quote ''server-1'' ''A2''], 0, 0)
   \<and> mergeServerQuotes [server_quote ''server-1'' ''A1'', server_quote ''server-1'' ''A2'']
       [server_quote ''server-1'' ''A1'']
     = ([server_quote ''server-1'' ''A1'', server_quote ''server-1'' ''A2''], 0, 1)"
  by (simp add: mergeServerQuotes_def sync_loop_def sync_init_def sync_step_def
      server_quote_def Let_def)

section \<open>Running the sync twice\<close>

lemma coveredI:
  "r \<in> set qs \<Longrightarrow> id_q r = id_q s \<Longrightarrow> text_q r = text_q s \<Longrightarrow> category r = category s
   \<Longrightarrow> covered qs s"
  by (auto simp: covered_def list_ex_iff)

lemma coveredE:
  "covered qs s \<Longrightarrow>
   \<exists>r\<in>set qs. id_q r = id_q s \<and> text_q r = text_q s \<and> category r = category s"
  by (auto simp: covered_def list_ex_iff)

lemma sync_step_noop:
  assumes inv: "sync_inv st" and c: "covered (s_quotes st) s"
  shows "sync_step st s = st"
proof -
  from coveredE [OF c] obtain r where r: "r \<in> set (s_quotes st)" "id_q r = id_q s"
      "text_q r = text_q s" "category r = category s" by blast
  with inv have "s_localById st (id_q s) = Some r" by (simp add: sync_inv_def)
  with r show ?thesis by (simp add: sync_step_def)
qed

lemma sync_fold_noop:
  "sync_inv st \<Longrightarrow> \<forall>s\<in>set ss. covered (s_quotes st) s \<Longrightarrow> foldl sync_step st ss = st"
  by (induction ss) (simp_all add: sync_step_noop)

lemma sync_step_covers_self:
  assumes inv: "sync_inv st"
  shows "covered (s_quotes (sync_step st s)) s"
proof (cases "s_localById st (id_q s)")
  case None
  then show ?thesis by (auto simp: sync_step_def intro: coveredI)
next
  case (Some l)
  from Some inv have l: "l \<in> set (s_quotes st)" "id_q l = id_q s"
    by (auto simp: sync_inv_def)
  show ?thesis
  proof (cases "text_q l \<noteq> text_q s \<or> category l \<noteq> category s")
    case False
    with Some have "sync_step st s = st" by (simp add: sync_step_def)
    with l False show ?thesis by (auto intro: coveredI)
  next
    case True
    from l obtain i where i: "i < length (s_quotes st)" "s_quotes st ! i = l"
      by (auto simp: in_set_conv_nth)
    have "sync_step st s = st\<lparr>s_quotes := (s_quotes st)[i := s],
              s_localById := (s_localById st)(id_q s \<mapsto> s),
              s_replaced := s_replaced st + 1\<rparr>"
      using sync_step_stored [OF inv i(1), of s] i(2) l(2) True by simp
    then have "s_quotes (sync_step st s) = (s_quotes st)[i := s]" by simp
    moreover have "s \<in> set ((s_quotes st)[i := s])" using i(1) by (simp add: set_update_memI)
    ultimately show ?thesis by (auto intro: coveredI)
  qed
qed

lemma sync_step_keeps_covered:
  assumes inv: "sync_inv st" and c: "covered (s_quotes st) d"
    and agree: "id_q d = id_q s \<longrightarrow> text_q d = text_q s \<and> category d = category s"
  shows "covered (s_quotes (sync_step st s)) d"
proof (cases "id_q d = id_q s")
  case True
  from sync_step_covers_self [OF inv, of s] have "covered (s_quotes (sync_step st s)) s" .
  from coveredE [OF this] True agree show ?thesis by (auto intro: coveredI)
next
  case False
  from coveredE [OF c] obtain r where r: "r \<in> set (s_quotes st)" "id_q r = id_q d"
      "text_q r = text_q d" "category r = category d" by blast
  then obtain i where i: "i < length (s_quotes st)" "s_quotes st ! i = r"
    by (auto simp: in_set_conv_nth)
  have ne: "id_q (s_quotes st ! i) \<noteq> id_q s" using i(2) r(2) False by simp
  have "s_quotes (sync_step st s) ! i = r"
    using sync_step_nth_other [OF i(1) ne] i(2) by simp
  moreover have "i < length (s_quotes (sync_step st s))"
    using i(1) sync_step_length_le [of st s] by simp
  ultimately have "r \<in> set (s_quotes (sync_step st s))" using nth_mem by metis
  with r show ?thesis by (auto intro: coveredI)
qed

lemma sync_fold_covers:
  assumes "sync_inv st"
    and "\<forall>d\<in>D. covered (s_quotes st) d"
    and "\<forall>d\<in>D \<union> set ss. \<forall>s\<in>set ss.
           id_q d = id_q s \<longrightarrow> text_q d = text_q s \<and> category d = category s"
  shows "\<forall>d\<in>D \<union> set ss. covered (s_quotes (foldl sync_step st ss)) d"
  using assms
proof (induction ss arbitrary: st D)
  case Nil
  from Nil.prems(2) show ?case by simp
next
  case (Cons s ss)
  let ?st = "sync_step st s"
  have inv': "sync_inv ?st" using Cons.prems(1) by (rule sync_step_inv)
  have cov': "\<forall>d\<in>insert s D. covered (s_quotes ?st) d"
  proof
    fix d assume "d \<in> insert s D"
    then show "covered (s_quotes ?st) d"
    proof
      assume "d = s"
      then show ?thesis using sync_step_covers_self [OF Cons.prems(1)] by simp
    next
      assume "d \<in> D"
      with Cons.prems(2) have "covered (s_quotes st) d" by blast
      moreover from \<open>d \<in> D\<close> Cons.prems(3)
      have "id_q d = id_q s \<longrightarrow> text_q d = text_q s \<and> category d = category s"
        by (meson UnI1 list.set_intros(1))
      ultimately show ?thesis using sync_step_keeps_covered [OF Cons.prems(1)] by blast
    qed
  qed
  have agree': "\<forall>d\<in>insert s D \<union> set ss. \<forall>t\<in>set ss.
      id_q d = id_q t \<longrightarrow> text_q d = text_q t \<and> category d = category t"
  proof (intro ballI impI)
    fix d t assume "d \<in> insert s D \<union> set ss" "t \<in> set ss" "id_q d = id_q t"
    then have "d \<in> D \<union> set (s # ss)" "t \<in> set (s # ss)" by auto
    with Cons.prems(3) \<open>id_q d = id_q t\<close>
    show "text_q d = text_q t \<and> category d = category t" by blast
  qed
  have "\<forall>d\<in>insert s D \<union> set ss. covered (s_quotes (foldl sync_step ?st ss)) d"
    using inv' cov' agree' by (rule Cons.IH)
  then show ?case by simp
qed

text \<open>
  C5, as the code has it. Let the ids of the collection be pairwise distinct and let
  incoming records with the same id have the same text and category (as they do when the
  incoming ids are pairwise distinct). Then a second \<^verbatim>\<open>mergeServerQuotes\<close> with the
  same incoming sequence, applied to the result of the first, adds nothing, replaces
  nothing and leaves the collection as it is.
\<close>

theorem sync_idempotent:
  assumes d: "distinct (ids existing)" and c: "consistent_ids incoming"
  shows "mergeServerQuotes (fst (mergeServerQuotes existing incoming)) incoming
           = (fst (mergeServerQuotes existing incoming), 0, 0)"
proof -
  define m where "m = s_quotes (sync_loop existing incoming)"
  have inv: "sync_inv (sync_init existing)" using d by (rule sync_init_inv)
  have agree: "\<forall>d\<in>{} \<union> set incoming. \<forall>s\<in>set incoming.
      id_q d = id_q s \<longrightarrow> text_q d = text_q s \<and> category d = category s"
    using c unfolding consistent_ids_def list_all_iff by blast
  have "\<forall>d\<in>{} \<union> set incoming.
      covered (s_quotes (foldl sync_step (sync_init existing) incoming)) d"
    by (rule sync_fold_covers [OF inv _ agree]) simp
  then have cov: "\<forall>s\<in>set incoming. covered m s"
    by (simp add: sync_loop_def m_def)
  have dm: "distinct (ids m)"
    using sync_loop_distinct [OF d, of incoming] by (simp add: m_def)
  have inv2: "sync_inv (sync_init m)" using dm by (rule sync_init_inv)
  have qm: "s_quotes (sync_init m) = m" by (simp add: sync_init_def)
  have "foldl sync_step (sync_init m) incoming = sync_init m"
    by (rule sync_fold_noop [OF inv2]) (simp add: qm cov)
  then have "sync_loop m incoming = sync_init m" by (simp add: sync_loop_def)
  then have "mergeServerQuotes m incoming = (m, 0, 0)"
    by (simp add: mergeServerQuotes_def Let_def sync_init_def)
  moreover have "fst (mergeServerQuotes existing incoming) = m"
    by (simp add: mergeServerQuotes_def Let_def m_def)
  ultimately show ?thesis by simp
qed

text \<open>
  A first sync replaces \<^verbatim>\<open>server-1\<close> and adds \<^verbatim>\<open>server-2\<close>; the second sync
  with the same two records changes nothing.
\<close>

theorem sync_idempotent_witness:
  "mergeServerQuotes
     (fst (mergeServerQuotes [server_quote ''server-1'' ''A'']
             [server_quote ''server-1'' ''B'', server_quote ''server-2'' ''C'']))
     [server_quote ''server-1'' ''B'', server_quote ''server-2'' ''C'']
   = (fst (mergeServerQuotes [server_quote ''server-1'' ''A'']
             [server_quote ''server-1'' ''B'', server_quote ''server-2'' ''C'']), 0, 0)"
proof -
  have d: "distinct (ids [server_quote ''server-1'' ''A''])" by (simp add: ids_def)
  have c: "consistent_ids [server_quote ''server-1'' ''B'', server_quote ''server-2'' ''C'']"
    by (simp add: consistent_ids_def server_quote_def)
  from sync_idempotent [OF d c] show ?thesis .
qed

text \<open>
  C5 as stated fails when the server sends one id twice with different texts: the first
  sync of \<^verbatim>\<open>server-1\<close> with texts \<^verbatim>\<open>A\<close>, then \<^verbatim>\<open>B\<close> into the empty
  collection leaves the record with text \<^verbatim>\<open>B\<close>; the second sync of the same
  sequence replaces it by \<^verbatim>\<open>A\<close> and then by \<^verbatim>\<open>B\<close> again, so its
  \<open>replacedCount\<close> is 2, not 0.
\<close>

theorem sync_twice_duplicate_ids:
  "mergeServerQuotes [] [server_quote ''server-1'' ''A'', server_quote ''server-1'' ''B'']
     = ([server_quote ''server-1'' ''B''], 1, 1)
   \<and> mergeServerQuotes [server_quote ''server-1'' ''B'']
        [server_quote ''server-1'' ''A'', server_quote ''server-1'' ''B'']
     = ([server_quote ''server-1'' ''B''], 0, 2)"
  by (simp add: mergeServerQuotes_def sync_loop_def sync_init_def sync_step_def
      server_quote_def Let_def)

section \<open>Trimming and lower case\<close>

lemma toLowerCase_char_code:
  "(of_char (toLowerCase_char c) :: nat) =
     (let n = of_char c in
      if (65 \<le> n \<and> n \<le> 90) \<or> (192 \<le> n \<and> n \<le> 222 \<and> n \<noteq> 215) then n + 32 else n)"
  by (simp add: toLowerCase_char_def Let_def)

lemma isWhiteSpace_lower: "isWhiteSpace (toLowerCase_char c) = isWhiteSpace c"
  unfolding isWhiteSpace_def toLowerCase_char_code by (auto simp: Let_def)

lemma toLowerCase_char_idem: "toLowerCase_char (toLowerCase_char c) = toLowerCase_char c"
proof -
  have "(of_char (toLowerCase_char (toLowerCase_char c)) :: nat) = of_char (toLowerCase_char c)"
    unfolding toLowerCase_char_code by (auto simp: Let_def)
  then show ?thesis by simp
qed

lemma toLowerCase_idem: "toLowerCase (toLowerCase s) = toLowerCase s"
  by (simp add: toLowerCase_def toLowerCase_char_idem)

lemma dropWhile_ws_lower:
  "dropWhile isWhiteSpace (toLowerCase s) = toLowerCase (dropWhile isWhiteSpace s)"
  by (simp add: toLowerCase_def dropWhile_map comp_def isWhiteSpace_lower)

lemma rev_lower: "rev (toLowerCase s) = toLowerCase (rev s)"
  by (simp add: toLowerCase_def rev_map)

lemma trim_lower: "trim (toLowerCase s) = toLowerCase (trim s)"
  by (simp add: trim_def dropWhile_ws_lower rev_lower)

lemma dropWhile_trimmed:
  "dropWhile P (rev (dropWhile P (rev (dropWhile P xs))))
     = rev (dropWhile P (rev (dropWhile P xs)))"
proof -
  let ?t = "dropWhile P xs"
  let ?u = "dropWhile P (rev ?t)"
  show ?thesis
  proof (cases "?u = []")
    case True
    show ?thesis unfolding True by simp
  next
    case False
    then have nP: "\<not> P (hd ?u)" by (rule hd_dropWhile)
    have "hd ?u \<in> set ?u" using False by simp
    then have mem: "hd ?u \<in> set (rev ?t)" by (rule set_dropWhileD)
    have "last ?u = last (rev ?t)" using mem nP by (rule dropWhile_last)
    moreover have t: "?t \<noteq> []"
    proof
      assume "?t = []"
      with mem show False by (simp only: rev.simps list.set empty_iff)
    qed
    ultimately have "last ?u = hd ?t" by (simp add: last_rev)
    moreover have "\<not> P (hd ?t)" using t by (rule hd_dropWhile)
    ultimately have "\<not> P (hd (rev ?u))" by (simp add: hd_rev)
    then show ?thesis by (simp add: dropWhile_eq_self_iff)
  qed
qed

lemma trim_idem: "trim (trim s) = trim s"
  by (simp add: trim_def dropWhile_trimmed)

section \<open>What the normaliser returns\<close>

lemma content_normalize_item: "text_category (normalize_item r x) = expected_content x"
  by (simp add: text_category_def normalize_item_def expected_content_def)

lemma normal_normalize_item: "normal (normalize_item r x)"
proof -
  have "truthy (id_q (normalize_item r x))"
    by (cases "property x ''id''") (simp_all add: normalize_item_def)
  moreover have "trim (text_q (normalize_item r x)) = text_q (normalize_item r x)"
    by (simp add: normalize_item_def trim_idem)
  moreover have "toLowerCase (trim (category (normalize_item r x)))
      = category (normalize_item r x)"
    by (simp add: normalize_item_def trim_lower trim_idem toLowerCase_idem)
  ultimately show ?thesis by (simp add: normal_def)
qed

lemma category_normalize_item:
  "trim (category (normalize_item r x)) = category (normalize_item r x)
   \<and> toLowerCase (category (normalize_item r x)) = category (normalize_item r x)"
  by (simp add: normalize_item_def trim_lower trim_idem toLowerCase_idem)

lemma content_enumerate:
  "map text_category (map (\<lambda>(k, x). normalize_item (rd k) x) (enumerate n xs))
     = map expected_content xs"
  by (induction xs arbitrary: n) (simp_all add: content_normalize_item)

lemma normalized_member:
  assumes "q \<in> set (normalizeImported rd arr)"
  shows "\<exists>r x. q = normalize_item r x"
proof -
  from assms obtain k x where "q = normalize_item (rd k) x"
    by (auto simp: normalizeImported_def)
  then show ?thesis by blast
qed

text \<open>
  C2, as the code has it. The normaliser returns one record for each element that is
  truthy and whose \<^verbatim>\<open>text\<close> and \<^verbatim>\<open>category\<close> are strings, in order, and drops the
  others. The text of the record is the trimmed text of the element, its category the
  trimmed category in lower case; so the text is trimmed, the category trimmed and in
  lower case, and the id truthy. Nothing is said about emptiness.
\<close>

theorem normalizer_output:
  "map text_category (normalizeImported rd arr) = map expected_content (filter valid_item arr)
   \<and> (\<forall>q\<in>set (normalizeImported rd arr).
         normal q \<and> trim (category q) = category q \<and> toLowerCase (category q) = category q)"
proof -
  have "map text_category (normalizeImported rd arr) = map expected_content (filter valid_item arr)"
    by (simp only: normalizeImported_def content_enumerate)
  moreover have "\<forall>q\<in>set (normalizeImported rd arr).
      normal q \<and> trim (category q) = category q \<and> toLowerCase (category q) = category q"
  proof
    fix q assume "q \<in> set (normalizeImported rd arr)"
    then obtain r x where "q = normalize_item r x" using normalized_member by blast
    then show "normal q \<and> trim (category q) = category q \<and> toLowerCase (category q) = category q"
      using normal_normalize_item [of r x] category_normalize_item [of r x] by simp
  qed
  ultimately show ?thesis by blast
qed

text \<open>
  The example of the spec: \<^verbatim>\<open>{text: " Hi ", category: "Wisdom"}\<close> becomes a record
  with text \<^verbatim>\<open>Hi\<close> and category \<^verbatim>\<open>wisdom\<close>, and \<^verbatim>\<open>{text: 42, category: "x"}\<close>
  is dropped.
\<close>

theorem normalizer_output_witness:
  "map text_category (normalizeImported example_readings
      [JObj [(''text'', JStr '' Hi ''), (''category'', JStr ''Wisdom'')],
       JObj [(''text'', JNum 42), (''category'', JStr ''x'')]])
     = [(''Hi'', ''wisdom'')]"
proof -
  let ?arr = "[JObj [(''text'', JStr '' Hi ''), (''category'', JStr ''Wisdom'')],
       JObj [(''text'', JNum 42), (''category'', JStr ''x'')]]"
  have "map expected_content (filter valid_item ?arr) = [(''Hi'', ''wisdom'')]"
    by (simp add: valid_item_def expected_content_def trim_def isWhiteSpace_def
        toLowerCase_def toLowerCase_char_def char_of_def bit_Suc_0_iff)
  with normalizer_output [of example_readings ?arr] show ?thesis by simp
qed

text \<open>
  C2 as stated fails: an element whose text is white space and whose category is the
  empty string passes the type test, and its record has the empty text and the empty
  category.
\<close>

theorem normalizer_keeps_empty:
  "map text_category (normalizeImported example_readings
      [JObj [(''text'', JStr ''   ''), (''category'', JStr '''')]])
     = [('''', '''')]"
  by (simp add: normalizeImported_def valid_item_def normalize_item_def text_category_def
      trim_def isWhiteSpace_def toLowerCase_def)

section \<open>Distinct ids\<close>

lemma import_step_inv: "import_inv st \<Longrightarrow> import_inv (import_step st q)"
  by (simp add: import_inv_def import_step_def ids_def)

lemma import_step_distinct:
  "import_inv st \<Longrightarrow> distinct (ids (i_quotes st)) \<Longrightarrow>
   distinct (ids (i_quotes (import_step st q)))"
  by (simp add: import_inv_def import_step_def ids_def)

lemma import_fold_distinct:
  "import_inv st \<Longrightarrow> distinct (ids (i_quotes st)) \<Longrightarrow>
   distinct (ids (i_quotes (foldl import_step st ns)))"
proof (induction ns arbitrary: st)
  case Nil
  then show ?case by simp
next
  case (Cons q ns)
  have "import_inv (import_step st q)" using Cons.prems(1) by (rule import_step_inv)
  moreover have "distinct (ids (i_quotes (import_step st q)))"
    using Cons.prems by (rule import_step_distinct)
  ultimately show ?case using Cons.IH by simp
qed

lemma import_init_inv: "import_inv (import_init qs)"
  by (simp add: import_inv_def import_init_def ids_def)

lemma import_loop_distinct:
  "distinct (ids qs) \<Longrightarrow> distinct (ids (i_quotes (import_loop qs ns)))"
  using import_fold_distinct [OF import_init_inv, of qs ns]
  by (simp add: import_loop_def import_init_def)

lemma quotes_populateCategories: "quotes (populateCategories st) = quotes st"
  by (simp add: populateCategories_def Let_def)

lemma quotes_saveQuotes: "quotes (saveQuotes P st) = quotes st"
  by (simp add: saveQuotes_def)

lemma quotes_importFromJsonFile:
  "quotes (importFromJsonFile P rd content st) = quotes st
   \<or> (\<exists>ns. quotes (importFromJsonFile P rd content st) = i_quotes (import_loop (quotes st) ns))"
  by (auto simp: importFromJsonFile_def Let_def quotes_populateCategories quotes_saveQuotes
           split: option.splits json.splits)

lemma quotes_syncWithServer:
  "quotes (syncWithServer P now fetched st) =
     (case fetched of None \<Rightarrow> quotes st | Some ss \<Rightarrow> s_quotes (sync_loop (quotes st) ss))"
  by (simp add: syncWithServer_def Let_def quotes_populateCategories quotes_saveQuotes
           split: option.splits)

lemma quotes_addQuote:
  "quotes (addQuote P r textValue catValue st) =
     (if add_accepted textValue catValue
      then quotes st @
        [\<lparr>id_q = local_id r, text_q = trim textValue, category = toLowerCase (trim catValue),
          source = JStr ''local'', version = 1, lastUpdated = int (now_lastUpdated r)\<rparr>]
      else quotes st)"
  by (simp add: addQuote_def add_accepted_def Let_def quotes_populateCategories
      quotes_saveQuotes)

lemma import_keeps_distinct:
  assumes "distinct (ids (quotes st))"
  shows "distinct (ids (quotes (importFromJsonFile P rd content st)))"
  using quotes_importFromJsonFile [of P rd content st] assms
  by (auto simp: import_loop_distinct)

lemma sync_keeps_distinct:
  assumes "distinct (ids (quotes st))"
  shows "distinct (ids (quotes (syncWithServer P now fetched st)))"
  using assms by (simp add: quotes_syncWithServer sync_loop_distinct split: option.splits)

lemma add_keeps_distinct:
  assumes "distinct (ids (quotes st))"
    and "add_accepted textValue catValue \<longrightarrow> local_id r \<notin> set (ids (quotes st))"
  shows "distinct (ids (quotes (addQuote P r textValue catValue st)))"
  using assms by (simp add: quotes_addQuote ids_def)

section \<open>Scalar ids\<close>

lemma import_step_subset: "set (i_quotes (import_step st q)) \<subseteq> insert q (set (i_quotes st))"
  by (auto simp: import_step_def)

lemma import_fold_subset:
  "set (i_quotes (foldl import_step st ns)) \<subseteq> set (i_quotes st) \<union> set ns"
proof (induction ns arbitrary: st)
  case Nil
  show ?case by simp
next
  case (Cons q ns)
  from Cons.IH [of "import_step st q"] import_step_subset [of st q]
  show ?case by auto
qed

lemma import_loop_subset: "set (i_quotes (import_loop qs ns)) \<subseteq> set qs \<union> set ns"
  using import_fold_subset [of "import_init qs" ns]
  by (simp add: import_loop_def import_init_def)

lemma sync_step_subset: "set (s_quotes (sync_step st s)) \<subseteq> insert s (set (s_quotes st))"
proof (cases "findIndex (\<lambda>q. id_q q = id_q s) (s_quotes st)")
  case None
  then show ?thesis by (auto simp: sync_step_def split: option.splits)
next
  case (Some i)
  have "set ((s_quotes st)[i := s]) \<subseteq> insert s (set (s_quotes st))"
    by (rule set_update_subset_insert)
  with Some show ?thesis by (auto simp: sync_step_def split: option.splits)
qed

lemma sync_fold_subset:
  "set (s_quotes (foldl sync_step st ss)) \<subseteq> set (s_quotes st) \<union> set ss"
proof (induction ss arbitrary: st)
  case Nil
  show ?case by simp
next
  case (Cons s ss)
  from Cons.IH [of "sync_step st s"] sync_step_subset [of st s]
  show ?case by auto
qed

lemma sync_loop_subset: "set (s_quotes (sync_loop qs ss)) \<subseteq> set qs \<union> set ss"
  using sync_fold_subset [of "sync_init qs" ss]
  by (simp add: sync_loop_def sync_init_def)

lemma scalar_ids_iff: "list_all scalar (ids qs) \<longleftrightarrow> (\<forall>q\<in>set qs. scalar (id_q q))"
  by (simp add: ids_def list_all_iff)

lemma scalar_normalize_item:
  assumes "scalar_id x"
  shows "scalar (id_q (normalize_item r x))"
proof (cases "property x ''id''")
  case None
  then show ?thesis by (simp add: normalize_item_def)
next
  case (Some v)
  with assms have "scalar v" by (simp add: scalar_id_def)
  with Some show ?thesis by (simp add: normalize_item_def)
qed

lemma scalar_normalizeImported:
  assumes "list_all scalar_id arr" and "q \<in> set (normalizeImported rd arr)"
  shows "scalar (id_q q)"
proof -
  from assms(2) obtain k x where kx: "(k, x) \<in> set (enumerate 0 (filter valid_item arr))"
      and q: "q = normalize_item (rd k) x"
    by (auto simp: normalizeImported_def)
  from kx have "x \<in> set (map snd (enumerate 0 (filter valid_item arr)))"
    by (metis image_eqI set_map snd_conv)
  then have x: "x \<in> set arr" by (simp only: map_snd_enumerate) simp
  from assms(1) x have "scalar_id x" by (simp add: list_all_iff)
  with q show ?thesis by (simp add: scalar_normalize_item)
qed

lemma import_keeps_scalar:
  assumes "list_all scalar (ids (quotes st))" and "scalar_input P (Import rd content)"
  shows "list_all scalar (ids (quotes (importFromJsonFile P rd content st)))"
proof (cases "\<exists>arr. JSON_parse P content = Some (JArr arr)")
  case False
  then have "quotes (importFromJsonFile P rd content st) = quotes st"
    by (auto simp: importFromJsonFile_def split: option.splits json.splits)
  with assms(1) show ?thesis by simp
next
  case True
  then obtain arr where arr: "JSON_parse P content = Some (JArr arr)" by blast
  with assms(2) have sc: "list_all scalar_id arr" by simp
  have q: "quotes (importFromJsonFile P rd content st)
      = i_quotes (import_loop (quotes st) (normalizeImported rd arr))"
    using arr
    by (simp add: importFromJsonFile_def Let_def quotes_populateCategories quotes_saveQuotes)
  show ?thesis
    unfolding q scalar_ids_iff
  proof
    fix x assume "x \<in> set (i_quotes (import_loop (quotes st) (normalizeImported rd arr)))"
    with import_loop_subset [of "quotes st" "normalizeImported rd arr"]
    have "x \<in> set (quotes st) \<or> x \<in> set (normalizeImported rd arr)" by blast
    then show "scalar (id_q x)"
    proof
      assume "x \<in> set (quotes st)"
      with assms(1) show ?thesis by (simp add: scalar_ids_iff)
    next
      assume "x \<in> set (normalizeImported rd arr)"
      with sc show ?thesis by (rule scalar_normalizeImported)
    qed
  qed
qed

lemma sync_keeps_scalar:
  assumes "list_all scalar (ids (quotes st))" and "scalar_input P (Sync now fetched)"
  shows "list_all scalar (ids (quotes (syncWithServer P now fetched st)))"
proof (cases fetched)
  case None
  with assms(1) show ?thesis by (simp add: quotes_syncWithServer)
next
  case (Some ss)
  with assms(2) have sc: "\<forall>q\<in>set ss. scalar (id_q q)" by (simp add: scalar_ids_iff)
  have q: "quotes (syncWithServer P now fetched st) = s_quotes (sync_loop (quotes st) ss)"
    using Some by (simp add: quotes_syncWithServer)
  show ?thesis
    unfolding q scalar_ids_iff
  proof
    fix x assume "x \<in> set (s_quotes (sync_loop (quotes st) ss))"
    with sync_loop_subset [of "quotes st" ss]
    have "x \<in> set (quotes st) \<or> x \<in> set ss" by blast
    then show "scalar (id_q x)"
    proof
      assume "x \<in> set (quotes st)"
      with assms(1) show ?thesis by (simp add: scalar_ids_iff)
    next
      assume "x \<in> set ss"
      with sc show ?thesis by blast
    qed
  qed
qed

lemma add_keeps_scalar:
  assumes "list_all scalar (ids (quotes st))"
  shows "list_all scalar (ids (quotes (addQuote P r textValue catValue st)))"
  using assms by (simp add: quotes_addQuote ids_def local_id_def)

text \<open>
  C1, as the code has it. Take a collection with pairwise distinct ids and a run of
  \<^verbatim>\<open>addQuote\<close>, file imports and syncs in which no id is an array or an object
  (neither in the collection at the start, nor in an imported file, nor among the
  fetched quotes), and in which every \<^verbatim>\<open>addQuote\<close> that builds a record draws an
  id that no record of the collection has at that moment. Then the ids of the
  collection at the end are pairwise distinct, and none of them is an array or an
  object. The import and the sync test the id before they insert; \<^verbatim>\<open>addQuote\<close>
  pushes without a test.
\<close>

theorem ids_stay_distinct:
  assumes "distinct (ids (quotes st))" and "list_all scalar (ids (quotes st))"
    and "list_all (scalar_input P) ops" and "fresh_adds P st ops"
  shows "distinct (ids (quotes (run P st ops)))
         \<and> list_all scalar (ids (quotes (run P st ops)))"
  using assms
proof (induction ops arbitrary: st)
  case Nil
  then show ?case by (simp add: run_def)
next
  case (Cons x ops)
  have step: "\<And>y. run P st (y # ops) = run P (apply_op P st y) ops" by (simp add: run_def)
  have inputs: "list_all (scalar_input P) ops" and input: "scalar_input P x"
    using Cons.prems(3) by simp_all
  show ?case
  proof (cases x)
    case (Add r textValue catValue)
    with Cons.prems(4)
    have f: "add_accepted textValue catValue \<longrightarrow> local_id r \<notin> set (ids (quotes st))"
      and rest: "fresh_adds P (addQuote P r textValue catValue st) ops" by simp_all
    have d: "distinct (ids (quotes (addQuote P r textValue catValue st)))"
      using Cons.prems(1) f by (rule add_keeps_distinct)
    have s: "list_all scalar (ids (quotes (addQuote P r textValue catValue st)))"
      using Cons.prems(2) by (rule add_keeps_scalar)
    from Cons.IH [OF d s inputs rest] show ?thesis by (simp add: step Add)
  next
    case (Import rd content)
    with Cons.prems(4) have rest: "fresh_adds P (importFromJsonFile P rd content st) ops"
      by simp
    have d: "distinct (ids (quotes (importFromJsonFile P rd content st)))"
      using Cons.prems(1) by (rule import_keeps_distinct)
    have s: "list_all scalar (ids (quotes (importFromJsonFile P rd content st)))"
      using Cons.prems(2) input unfolding Import by (rule import_keeps_scalar)
    from Cons.IH [OF d s inputs rest] show ?thesis by (simp add: step Import)
  next
    case (Sync now fetched)
    with Cons.prems(4) have rest: "fresh_adds P (syncWithServer P now fetched st) ops"
      by simp
    have d: "distinct (ids (quotes (syncWithServer P now fetched st)))"
      using Cons.prems(1) by (rule sync_keeps_distinct)
    have s: "list_all scalar (ids (quotes (syncWithServer P now fetched st)))"
      using Cons.prems(2) input unfolding Sync by (rule sync_keeps_scalar)
    from Cons.IH [OF d s inputs rest] show ?thesis by (simp add: step Sync)
  qed
qed

text \<open>
  A sync that adds \<^verbatim>\<open>server-1\<close>, then an \<^verbatim>\<open>addQuote\<close> whose id is new, an
  \<^verbatim>\<open>addQuote\<close> without a text, which builds nothing, and an import of the file
  \<^verbatim>\<open>[]\<close>: the ids stay distinct.
\<close>

theorem ids_stay_distinct_witness:
  "distinct (ids (quotes (run (one_text_platform ''[]'' (JArr [])) empty_app
      [Sync 1700000000000 (Some [server_quote ''server-1'' ''A'']),
       Add (example_readings 0) ''Hi'' ''Wisdom'',
       Add (example_readings 0) '' '' ''Wisdom'',
       Import example_readings ''[]''])))"
proof -
  let ?P = "one_text_platform ''[]'' (JArr [])"
  let ?ops = "[Sync 1700000000000 (Some [server_quote ''server-1'' ''A'']),
       Add (example_readings 0) ''Hi'' ''Wisdom'',
       Add (example_readings 0) '' '' ''Wisdom'',
       Import example_readings ''[]'']"
  have d: "distinct (ids (quotes empty_app))" by (simp add: empty_app_def ids_def)
  have s: "list_all scalar (ids (quotes empty_app))" by (simp add: empty_app_def ids_def)
  have p: "JSON_parse ?P ''[]'' = Some (JArr [])" by (simp add: one_text_platform_def)
  have i: "list_all (scalar_input ?P) ?ops"
    by (simp add: p ids_def server_quote_def)
  have q: "quotes (syncWithServer ?P 1700000000000 (Some [server_quote ''server-1'' ''A''])
      empty_app) = [server_quote ''server-1'' ''A'']"
    by (simp add: quotes_syncWithServer empty_app_def sync_loop_def sync_init_def sync_step_def)
  have n: "local_id (example_readings 0) \<notin> set (ids [server_quote ''server-1'' ''A''])"
    by (simp add: ids_def local_id_def server_quote_def)
  have r: "\<not> add_accepted '' '' ''Wisdom''"
    by (simp add: add_accepted_def trim_def isWhiteSpace_def)
  have f: "fresh_adds ?P empty_app ?ops"
    by (simp add: q n r)
  from ids_stay_distinct [OF d s i f] show ?thesis by (rule conjunct1)
qed

text \<open>
  C1 as stated fails for \<^verbatim>\<open>addQuote\<close>: two calls for which \<^verbatim>\<open>Date.now()\<close> and the
  random suffix read the same give two records with one id, since the id is built from
  these readings alone and pushed unchecked.
\<close>

theorem add_twice_same_readings:
  "\<forall>P. ids (quotes (run P empty_app
        [Add (example_readings 0) ''Hi'' ''Wisdom'', Add (example_readings 0) ''Ho'' ''Wisdom'']))
        = [local_id (example_readings 0), local_id (example_readings 0)]
      \<and> \<not> distinct (ids (quotes (run P empty_app
        [Add (example_readings 0) ''Hi'' ''Wisdom'', Add (example_readings 0) ''Ho'' ''Wisdom''])))"
proof
  fix P
  let ?ops = "[Add (example_readings 0) ''Hi'' ''Wisdom'', Add (example_readings 0) ''Ho'' ''Wisdom'']"
  have "ids (quotes (run P empty_app ?ops))
      = [local_id (example_readings 0), local_id (example_readings 0)]"
    by (simp add: run_def addQuote_def Let_def quotes_populateCategories quotes_saveQuotes
        empty_app_def ids_def trim_def isWhiteSpace_def toLowerCase_def)
  then show "ids (quotes (run P empty_app ?ops))
        = [local_id (example_readings 0), local_id (example_readings 0)]
      \<and> \<not> distinct (ids (quotes (run P empty_app ?ops)))"
    by simp
qed

section \<open>What an operation writes to \<^verbatim>\<open>localStorage\<close>\<close>

lemma storage_saveQuotes:
  "\<exists>v. localStorage (saveQuotes P st) = localStorage st @ [(STORAGE_QUOTES, v)]"
  by (simp add: saveQuotes_def setItem_def)

lemma storage_populateCategories:
  "\<exists>v. localStorage (populateCategories st) = localStorage st @ [(STORAGE_LAST_CATEGORY, v)]"
  by (simp add: populateCategories_def setItem_def Let_def)

lemma storage_save_populate:
  "\<exists>v w. localStorage (populateCategories (saveQuotes P st))
     = localStorage st @ [(STORAGE_QUOTES, v), (STORAGE_LAST_CATEGORY, w)]"
proof -
  obtain v where v: "localStorage (saveQuotes P st) = localStorage st @ [(STORAGE_QUOTES, v)]"
    using storage_saveQuotes by blast
  obtain w where "localStorage (populateCategories (saveQuotes P st))
      = localStorage (saveQuotes P st) @ [(STORAGE_LAST_CATEGORY, w)]"
    using storage_populateCategories by blast
  with v show ?thesis by simp
qed

lemma keys_save_populate:
  assumes "localStorage st1 = localStorage st"
  shows "keys_written st ((populateCategories (saveQuotes P st1))\<lparr>statusBox := s\<rparr>)
     = [STORAGE_QUOTES, STORAGE_LAST_CATEGORY]"
proof -
  obtain v w where "localStorage (populateCategories (saveQuotes P st1))
      = localStorage st1 @ [(STORAGE_QUOTES, v), (STORAGE_LAST_CATEGORY, w)]"
    using storage_save_populate by blast
  with assms show ?thesis by (simp add: keys_written_def)
qed

lemma keys_sync_some:
  "keys_written st (syncWithServer P now (Some serverQuotes) st) =
     (if s_added (sync_loop (quotes st) serverQuotes) \<noteq> 0
         \<or> s_replaced (sync_loop (quotes st) serverQuotes) \<noteq> 0
      then [STORAGE_QUOTES, STORAGE_LAST_CATEGORY, STORAGE_LAST_SYNC]
      else [STORAGE_LAST_SYNC])"
proof -
  let ?m = "sync_loop (quotes st) serverQuotes"
  let ?st1 = "st\<lparr>quotes := s_quotes ?m\<rparr>"
  obtain v w where vw: "localStorage (populateCategories (saveQuotes P ?st1))
      = localStorage ?st1 @ [(STORAGE_QUOTES, v), (STORAGE_LAST_CATEGORY, w)]"
    using storage_save_populate by blast
  show ?thesis
  proof (cases "s_added ?m \<noteq> 0 \<or> s_replaced ?m \<noteq> 0")
    case True
    then have "localStorage (syncWithServer P now (Some serverQuotes) st)
        = localStorage st @ [(STORAGE_QUOTES, v), (STORAGE_LAST_CATEGORY, w),
            (STORAGE_LAST_SYNC, show_nat now)]"
      using vw by (auto simp: syncWithServer_def Let_def setItem_def)
    with True show ?thesis by (simp add: keys_written_def)
  next
    case False
    then have "localStorage (syncWithServer P now (Some serverQuotes) st)
        = localStorage st @ [(STORAGE_LAST_SYNC, show_nat now)]"
      by (simp add: syncWithServer_def Let_def setItem_def)
    with False show ?thesis by (simp add: keys_written_def)
  qed
qed

lemma keys_import_array:
  assumes "JSON_parse P content = Some (JArr arr)"
  shows "keys_written st (importFromJsonFile P rd content st)
     = [STORAGE_QUOTES, STORAGE_LAST_CATEGORY]"
  using assms by (simp add: importFromJsonFile_def Let_def keys_save_populate)

lemma keys_import_failed:
  assumes "\<forall>arr. JSON_parse P content \<noteq> Some (JArr arr)"
  shows "keys_written st (importFromJsonFile P rd content st) = []"
  using assms
  by (auto simp: importFromJsonFile_def keys_written_def split: option.splits json.splits)

text \<open>
  C6, as the code has it. A sync whose fetch succeeded writes the collection and
  refreshes the categories (which records the selected category) exactly when it added
  or replaced something, and records the time of the sync in either case; a sync whose
  fetch failed writes nothing. An import whose file parses to an array writes the
  collection and refreshes the categories whatever it added; an import of anything else
  writes nothing.
\<close>

theorem persistence_writes:
  "keys_written st (syncWithServer P now (Some serverQuotes) st) =
     (if fst (snd (mergeServerQuotes (quotes st) serverQuotes)) \<noteq> 0
         \<or> snd (snd (mergeServerQuotes (quotes st) serverQuotes)) \<noteq> 0
      then [STORAGE_QUOTES, STORAGE_LAST_CATEGORY, STORAGE_LAST_SYNC]
      else [STORAGE_LAST_SYNC])
   \<and> keys_written st (syncWithServer P now None st) = []
   \<and> (JSON_parse P content = Some (JArr arr) \<longrightarrow>
        keys_written st (importFromJsonFile P rd content st)
          = [STORAGE_QUOTES, STORAGE_LAST_CATEGORY])
   \<and> ((\<forall>xs. JSON_parse P content \<noteq> Some (JArr xs)) \<longrightarrow>
        keys_written st (importFromJsonFile P rd content st) = [])"
proof -
  have "keys_written st (syncWithServer P now None st) = []"
    by (simp add: syncWithServer_def keys_written_def)
  then show ?thesis
    using keys_sync_some [of st P now serverQuotes]
      keys_import_array [of P content arr st rd] keys_import_failed [of P content st rd]
    by (simp add: mergeServerQuotes_def Let_def)
qed

text \<open>
  A sync that brings the record the collection already has writes the time of the sync
  only; an import of the file \<^verbatim>\<open>[]\<close> writes the collection and the category.
\<close>

theorem persistence_writes_witness:
  "keys_written (empty_app\<lparr>quotes := [server_quote ''server-1'' ''A'']\<rparr>)
       (syncWithServer (one_text_platform ''[]'' (JArr [])) 1700000000000
          (Some [server_quote ''server-1'' ''A''])
          (empty_app\<lparr>quotes := [server_quote ''server-1'' ''A'']\<rparr>))
     = [STORAGE_LAST_SYNC]
   \<and> keys_written empty_app
       (importFromJsonFile (one_text_platform ''[]'' (JArr [])) example_readings ''[]'' empty_app)
     = [STORAGE_QUOTES, STORAGE_LAST_CATEGORY]"
proof -
  let ?P = "one_text_platform ''[]'' (JArr [])"
  let ?st = "empty_app\<lparr>quotes := [server_quote ''server-1'' ''A'']\<rparr>"
  have p: "JSON_parse ?P ''[]'' = Some (JArr [])" by (simp add: one_text_platform_def)
  have q: "quotes ?st = [server_quote ''server-1'' ''A'']" by simp
  have m: "mergeServerQuotes [server_quote ''server-1'' ''A''] [server_quote ''server-1'' ''A'']
      = ([server_quote ''server-1'' ''A''], 0, 0)"
    by (simp add: mergeServerQuotes_def sync_loop_def sync_init_def sync_step_def Let_def)
  have "keys_written ?st (syncWithServer ?P 1700000000000 (Some [server_quote ''server-1'' ''A'']) ?st)
      = (if fst (snd (mergeServerQuotes (quotes ?st) [server_quote ''server-1'' ''A''])) \<noteq> 0
           \<or> snd (snd (mergeServerQuotes (quotes ?st) [server_quote ''server-1'' ''A''])) \<noteq> 0
         then [STORAGE_QUOTES, STORAGE_LAST_CATEGORY, STORAGE_LAST_SYNC]
         else [STORAGE_LAST_SYNC])"
    using persistence_writes [of ?st ?P 1700000000000 "[server_quote ''server-1'' ''A'']"
        "''[]''" "[]" example_readings]
    by (rule conjunct1)
  then have "keys_written ?st
      (syncWithServer ?P 1700000000000 (Some [server_quote ''server-1'' ''A'']) ?st)
      = [STORAGE_LAST_SYNC]"
    by (simp only: q m fst_conv snd_conv simp_thms if_False)
  moreover
  from persistence_writes [of empty_app ?P 1700000000000 "[]" "''[]''" "[]" example_readings] p
  have "keys_written empty_app (importFromJsonFile ?P example_readings ''[]'' empty_app)
      = [STORAGE_QUOTES, STORAGE_LAST_CATEGORY]"
    by blast
  ultimately show ?thesis by blast
qed

text \<open>
  C6 as stated fails for the import: the file \<^verbatim>\<open>[]\<close> adds nothing and skips nothing
  (the status reads \<^verbatim>\<open>Added 0, skipped 0\<close>), and \<^verbatim>\<open>saveQuotes\<close> and
  \<^verbatim>\<open>populateCategories\<close> run all the same: the collection key is written.
\<close>

theorem import_of_nothing_writes:
  "statusBox (importFromJsonFile (one_text_platform ''[]'' (JArr [])) example_readings ''[]''
       empty_app) = Imported 0 0
   \<and> quotes (importFromJsonFile (one_text_platform ''[]'' (JArr [])) example_readings ''[]''
       empty_app) = quotes empty_app
   \<and> keys_written empty_app
       (importFromJsonFile (one_text_platform ''[]'' (JArr [])) example_readings ''[]'' empty_app)
     = [STORAGE_QUOTES, STORAGE_LAST_CATEGORY]"
  by (simp add: importFromJsonFile_def one_text_platform_def normalizeImported_def
      import_loop_def import_init_def Let_def keys_save_populate quotes_populateCategories
      quotes_saveQuotes empty_app_def)

section \<open>Export, then import\<close>















section \<open>The collection after the initial load\<close>

lemma load_seed:
  assumes "readLocalQuotes P ls = None \<or> readLocalQuotes P ls = Some []"
  shows "fst (loadInitialData P now ls) = map json_of_quote (SEED_QUOTES now)"
  using assms by (auto simp: loadInitialData_def Let_def)

lemma load_stored:
  assumes "readLocalQuotes P ls = Some local" and "local \<noteq> []"
  shows "fst (loadInitialData P now ls) = local"
  using assms by (simp add: loadInitialData_def Let_def)

lemma seed_length: "length (SEED_QUOTES now) = 4"
  by (simp add: SEED_QUOTES_def)

lemma read_absent:
  assumes "getItem ls STORAGE_QUOTES = None
     \<or> (\<exists>raw. getItem ls STORAGE_QUOTES = Some raw
           \<and> (JSON_parse P raw = None
               \<or> (\<exists>v. JSON_parse P raw = Some v \<and> (\<forall>xs. v \<noteq> JArr xs))
               \<or> JSON_parse P raw = Some (JArr [])))"
  shows "readLocalQuotes P ls = None \<or> readLocalQuotes P ls = Some []"
  using assms by (auto simp: readLocalQuotes_def split: json.splits if_splits)

text \<open>
  C10. The collection after the initial load is never empty. When the key is missing,
  or its value does not parse, or parses to something that is not an array, or parses
  to the empty array, the collection is the seed set, which has four records; in every
  other case it is the stored array, which is not empty.
\<close>

theorem initial_load_nonempty:
  "fst (loadInitialData P now ls) \<noteq> []
   \<and> length (SEED_QUOTES now) = 4
   \<and> ((getItem ls STORAGE_QUOTES = None
        \<or> (\<exists>raw. getItem ls STORAGE_QUOTES = Some raw
              \<and> (JSON_parse P raw = None
                  \<or> (\<exists>v. JSON_parse P raw = Some v \<and> (\<forall>xs. v \<noteq> JArr xs))
                  \<or> JSON_parse P raw = Some (JArr []))))
       \<longrightarrow> fst (loadInitialData P now ls) = map json_of_quote (SEED_QUOTES now))"
proof -
  have ne: "fst (loadInitialData P now ls) \<noteq> []"
  proof (cases "readLocalQuotes P ls")
    case None
    then have "fst (loadInitialData P now ls) = map json_of_quote (SEED_QUOTES now)"
      by (simp add: load_seed)
    then show ?thesis by (simp add: SEED_QUOTES_def)
  next
    case (Some local)
    show ?thesis
    proof (cases "local = []")
      case True
      with Some have "fst (loadInitialData P now ls) = map json_of_quote (SEED_QUOTES now)"
        by (simp add: load_seed)
      then show ?thesis by (simp add: SEED_QUOTES_def)
    next
      case False
      with Some show ?thesis by (simp add: load_stored)
    qed
  qed
  show ?thesis using ne seed_length read_absent [of ls P] load_seed [of P ls now] by blast
qed

text \<open>
  With nothing stored, and with the stored text \<^verbatim>\<open>[]\<close>, the collection after the
  load is the seed set.
\<close>

theorem initial_load_nonempty_witness:
  "(\<forall>P now. fst (loadInitialData P now []) = map json_of_quote (SEED_QUOTES now))
   \<and> (\<forall>now. fst (loadInitialData (one_text_platform ''[]'' (JArr [])) now
                  [(STORAGE_QUOTES, ''[]'')])
        = map json_of_quote (SEED_QUOTES now))"
proof -
  have a: "\<forall>P now. fst (loadInitialData P now []) = map json_of_quote (SEED_QUOTES now)"
  proof (intro allI)
    fix P now
    have "getItem [] STORAGE_QUOTES = None" by (simp add: getItem_def)
    with initial_load_nonempty [of P now "[]"]
    show "fst (loadInitialData P now []) = map json_of_quote (SEED_QUOTES now)" by blast
  qed
  have b: "\<forall>now. fst (loadInitialData (one_text_platform ''[]'' (JArr [])) now
                  [(STORAGE_QUOTES, ''[]'')]) = map json_of_quote (SEED_QUOTES now)"
  proof
    fix now
    let ?P = "one_text_platform ''[]'' (JArr [])"
    have g: "getItem [(STORAGE_QUOTES, ''[]'')] STORAGE_QUOTES = Some ''[]''"
      by (simp add: getItem_def)
    have p: "JSON_parse ?P ''[]'' = Some (JArr [])" by (simp add: one_text_platform_def)
    from initial_load_nonempty [of ?P now "[(STORAGE_QUOTES, ''[]'')]"] g p
    show "fst (loadInitialData ?P now [(STORAGE_QUOTES, ''[]'')])
        = map json_of_quote (SEED_QUOTES now)" by blast
  qed
  from a b show ?thesis by blast
qed

end
